theory Spec2Isabelle
  imports Main
begin

section \<open>Conduit: Go-style channels (native/src/conduit_ffi.c)\<close>

text \<open>
  The channel structure \<^verbatim>\<open>conduit_channel_t\<close> is a record. A \<^verbatim>\<open>lean_object *\<close> is an
  \<open>'a option\<close>: \<open>None\<close> is the NULL pointer and \<open>Some v\<close> points to the Lean value \<open>v\<close>.
  The buffer is the list of its slots; the empty list stands for the NULL buffer of an
  unbuffered channel. The \<^verbatim>\<open>size_t\<close> fields are natural numbers: every increment in the
  source is guarded (\<^verbatim>\<open>count++\<close> runs under \<^verbatim>\<open>count < capacity\<close>, \<^verbatim>\<open>count--\<close> under
  \<^verbatim>\<open>count != 0\<close>, and \<^verbatim>\<open>head\<close>, \<^verbatim>\<open>tail\<close> are reduced modulo the capacity), so no
  operation wraps around.

  The mutex and the two condition variables are not fields of the record. Every function
  of the source touches the channel only between \<^verbatim>\<open>pthread_mutex_lock\<close> and
  \<^verbatim>\<open>pthread_mutex_unlock\<close> (or \<^verbatim>\<open>pthread_cond_wait\<close>, which releases the mutex), so each
  such critical section is one atomic state transformer. What a critical section does
  to the outside is returned as a list of effects, in program order.
\<close>

record 'a conduit_channel_t =
  buffer :: "'a option list"
  capacity :: nat
  head :: nat
  tail :: nat
  count :: nat
  pending_value :: "'a option"
  pending_ready :: bool
  pending_taken :: bool
  closed :: bool

datatype cond_var = not_empty | not_full

datatype 'a effect =
    Cond_signal cond_var
  | Cond_broadcast cond_var
  | Lean_dec 'a

text \<open>
  A critical section ends in one of three ways: the function returns a result; the
  thread suspends in \<^verbatim>\<open>pthread_cond_wait\<close> on a condition variable (when it is woken it
  evaluates the loop condition again); or the code reads or writes the buffer outside its
  bounds, which C leaves undefined.
\<close>

datatype 'r outcome = Return 'r | Cond_wait cond_var | Undefined_access

type_synonym ('a, 'r) step = "'a conduit_channel_t \<times> 'a effect list \<times> 'r outcome"

subsection \<open>Construction\<close>

text \<open>
  The allocation and initialisation calls can fail; the record \<open>host\<close> says which of them
  succeed. An error result carries the message given to \<^verbatim>\<open>mk_io_error\<close>. The argument
  \<open>capacity_obj\<close> is the \<^verbatim>\<open>size_t\<close> that \<^verbatim>\<open>lean_usize_of_nat\<close> yields, as is
  \<open>timeout_ms\<close> further down.
\<close>

record host =
  malloc_ok :: bool
  calloc_ok :: bool
  mutex_init_ok :: bool
  not_empty_init_ok :: bool
  not_full_init_ok :: bool

definition conduit_channel_new :: "host \<Rightarrow> string + 'a conduit_channel_t" where
  "conduit_channel_new h =
     (if \<not> malloc_ok h then Inl ''Failed to allocate channel''
      else if \<not> mutex_init_ok h then Inl ''Failed to initialize mutex''
      else if \<not> not_empty_init_ok h then Inl ''Failed to initialize condition variable''
      else if \<not> not_full_init_ok h then Inl ''Failed to initialize condition variable''
      else Inr \<lparr> buffer = [], capacity = 0, head = 0, tail = 0, count = 0,
                 pending_value = None, pending_ready = False, pending_taken = False,
                 closed = False \<rparr>)"

definition conduit_channel_new_buffered :: "host \<Rightarrow> nat \<Rightarrow> string + 'a conduit_channel_t" where
  "conduit_channel_new_buffered h capacity_obj =
     (if capacity_obj = 0 then conduit_channel_new h
      else if \<not> malloc_ok h then Inl ''Failed to allocate channel''
      else if \<not> calloc_ok h then Inl ''Failed to allocate channel buffer''
      else if \<not> mutex_init_ok h then Inl ''Failed to initialize mutex''
      else if \<not> not_empty_init_ok h then Inl ''Failed to initialize condition variable''
      else if \<not> not_full_init_ok h then Inl ''Failed to initialize condition variable''
      else Inr \<lparr> buffer = replicate capacity_obj None, capacity = capacity_obj,
                 head = 0, tail = 0, count = 0,
                 pending_value = None, pending_ready = False, pending_taken = False,
                 closed = False \<rparr>)"

subsection \<open>Blocking send\<close>

text \<open>
  The wait loop of the unbuffered send (lines 241 to 257), entered with the value already
  deposited. A sender woken from \<^verbatim>\<open>pthread_cond_wait\<close> continues here.
\<close>

definition send_unbuffered_wait :: "'a conduit_channel_t \<Rightarrow> 'a \<Rightarrow> ('a, bool) step" where
  "send_unbuffered_wait ch v =
     (if \<not> pending_taken ch \<and> \<not> closed ch then (ch, [], Cond_wait not_full)
      else
        (let success = pending_taken ch;
             ch' = ch\<lparr> pending_value := None, pending_ready := False, pending_taken := False \<rparr>
         in (ch', (if \<not> success then [Lean_dec v] else []), Return success)))"

text \<open>
  The wait loop of the buffered send and the enqueue after it (lines 260 to 279). A
  sender woken from \<^verbatim>\<open>pthread_cond_wait\<close> continues here.
\<close>

definition send_buffered_wait :: "'a conduit_channel_t \<Rightarrow> 'a \<Rightarrow> ('a, bool) step" where
  "send_buffered_wait ch v =
     (if count ch \<ge> capacity ch \<and> \<not> closed ch then (ch, [], Cond_wait not_full)
      else if closed ch then (ch, [Lean_dec v], Return False)
      else if \<not> tail ch < length (buffer ch) then (ch, [], Undefined_access)
      else
        (ch\<lparr> buffer := (buffer ch)[tail ch := Some v],
             tail := (tail ch + 1) mod capacity ch,
             count := count ch + 1 \<rparr>,
         [Cond_signal not_empty], Return True))"

definition conduit_channel_send :: "'a conduit_channel_t \<Rightarrow> 'a \<Rightarrow> ('a, bool) step" where
  "conduit_channel_send ch v =
     (if closed ch then (ch, [Lean_dec v], Return False)
      else if capacity ch = 0 then
        (let ch1 = ch\<lparr> pending_value := Some v, pending_ready := True, pending_taken := False \<rparr>
         in case send_unbuffered_wait ch1 v of
              (ch2, es, r) \<Rightarrow> (ch2, Cond_signal not_empty # es, r))
      else send_buffered_wait ch v)"

subsection \<open>Blocking receive\<close>

text \<open>
  Both branches start with their wait loop, so a receiver woken from
  \<^verbatim>\<open>pthread_cond_wait\<close> continues as a fresh call does. The result is Lean's
  \<open>Option\<close>: \<open>None\<close> for \<^verbatim>\<open>lean_box(0)\<close>, \<open>Some p\<close> for the constructor holding the
  pointer \<open>p\<close> read from the channel.
\<close>

definition conduit_channel_recv :: "'a conduit_channel_t \<Rightarrow> ('a, 'a option option) step" where
  "conduit_channel_recv ch =
     (if capacity ch = 0 then
        (if \<not> pending_ready ch \<and> \<not> closed ch then (ch, [], Cond_wait not_empty)
         else if pending_ready ch \<and> \<not> pending_taken ch then
           (ch\<lparr> pending_taken := True, pending_ready := False \<rparr>,
            [Cond_signal not_full], Return (Some (pending_value ch)))
         else (ch, [], Return None))
      else
        (if count ch = 0 \<and> \<not> closed ch then (ch, [], Cond_wait not_empty)
         else if count ch = 0 then (ch, [], Return None)
         else if \<not> head ch < length (buffer ch) then (ch, [], Undefined_access)
         else
           (ch\<lparr> buffer := (buffer ch)[head ch := None],
                head := (head ch + 1) mod capacity ch,
                count := count ch - 1 \<rparr>,
            [Cond_signal not_full], Return (Some (buffer ch ! head ch)))))"

subsection \<open>Non-blocking variants\<close>

text \<open>The result of \<^verbatim>\<open>try_send\<close> is the \<^verbatim>\<open>UInt8\<close> the source boxes: 0, 1 or 2.\<close>

definition try_send_ok :: nat where "try_send_ok = 0"
definition try_send_would_block :: nat where "try_send_would_block = 1"
definition try_send_closed :: nat where "try_send_closed = 2"

definition conduit_channel_try_send :: "'a conduit_channel_t \<Rightarrow> 'a \<Rightarrow> ('a, nat) step" where
  "conduit_channel_try_send ch v =
     (if closed ch then (ch, [Lean_dec v], Return 2)
      else if capacity ch = 0 then (ch, [Lean_dec v], Return 1)
      else if count ch \<ge> capacity ch then (ch, [Lean_dec v], Return 1)
      else if \<not> tail ch < length (buffer ch) then (ch, [], Undefined_access)
      else
        (ch\<lparr> buffer := (buffer ch)[tail ch := Some v],
             tail := (tail ch + 1) mod capacity ch,
             count := count ch + 1 \<rparr>,
         [Cond_signal not_empty], Return 0))"

text \<open>
  \<^verbatim>\<open>TryResult\<close> of the Lean side: constructor 0 is \<open>ok\<close> with the pointer read from the
  channel, 1 is \<open>empty\<close>, 2 is \<open>closed\<close>.
\<close>

datatype 'a try_result = Try_ok "'a option" | Try_empty | Try_closed

definition conduit_channel_try_recv :: "'a conduit_channel_t \<Rightarrow> ('a, 'a try_result) step" where
  "conduit_channel_try_recv ch =
     (if capacity ch = 0 then
        (if pending_ready ch \<and> \<not> pending_taken ch then
           (ch\<lparr> pending_taken := True, pending_ready := False \<rparr>,
            [Cond_signal not_full], Return (Try_ok (pending_value ch)))
         else if closed ch then (ch, [], Return Try_closed)
         else (ch, [], Return Try_empty))
      else
        (if count ch = 0 then
           (if closed ch then (ch, [], Return Try_closed) else (ch, [], Return Try_empty))
         else if \<not> head ch < length (buffer ch) then (ch, [], Undefined_access)
         else
           (ch\<lparr> buffer := (buffer ch)[head ch := None],
                head := (head ch + 1) mod capacity ch,
                count := count ch - 1 \<rparr>,
            [Cond_signal not_full], Return (Try_ok (buffer ch ! head ch)))))"

subsection \<open>Close and introspection\<close>

definition conduit_channel_close :: "'a conduit_channel_t \<Rightarrow> ('a, unit) step" where
  "conduit_channel_close ch =
     (if \<not> closed ch then
        (ch\<lparr> closed := True \<rparr>, [Cond_broadcast not_empty, Cond_broadcast not_full], Return ())
      else (ch, [], Return ()))"

definition conduit_channel_is_closed :: "'a conduit_channel_t \<Rightarrow> bool" where
  "conduit_channel_is_closed ch = closed ch"

definition conduit_channel_len :: "'a conduit_channel_t \<Rightarrow> nat" where
  "conduit_channel_len ch = count ch"

definition conduit_channel_capacity :: "'a conduit_channel_t \<Rightarrow> nat" where
  "conduit_channel_capacity ch = capacity ch"

subsection \<open>Select\<close>

text \<open>
  A select case is a pair of a channel and the flag \<^verbatim>\<open>is_send\<close>. \<^verbatim>\<open>conduit_select_poll\<close>
  locks each channel in turn, reads it once and stops at the first ready one, so its
  argument is the list of the channels as they are when they are read.
  \<open>case_ready\<close> is the value of \<^verbatim>\<open>ready\<close> at the end of the loop body and
  \<open>select_poll_from i\<close> is the loop from index \<open>i\<close> on.
\<close>

type_synonym 'a select_case = "'a conduit_channel_t \<times> bool"

definition case_ready :: "'a conduit_channel_t \<Rightarrow> bool \<Rightarrow> bool" where
  "case_ready ch is_send =
     (if is_send then
        (if \<not> closed ch then
           (if capacity ch > 0 \<and> count ch < capacity ch then True else False)
         else False)
      else
        (if count ch > 0 \<or> (pending_ready ch \<and> \<not> pending_taken ch) \<or> closed ch
         then True else False))"

fun select_poll_from :: "nat \<Rightarrow> 'a select_case list \<Rightarrow> nat option" where
  "select_poll_from i [] = None"
| "select_poll_from i ((ch, is_send) # cases_obj) =
     (if case_ready ch is_send then Some i else select_poll_from (i + 1) cases_obj)"

definition conduit_select_poll :: "'a select_case list \<Rightarrow> nat option" where
  "conduit_select_poll cases_obj = select_poll_from 0 cases_obj"

text \<open>The scan of \<^verbatim>\<open>conduit_select_wait\<close> that computes \<^verbatim>\<open>all_closed\<close> (lines 653 to 667).\<close>

fun all_closed_scan :: "'a select_case list \<Rightarrow> bool" where
  "all_closed_scan [] = True"
| "all_closed_scan ((ch, is_send) # cases_obj) =
     (if \<not> closed ch then False else all_closed_scan cases_obj)"

text \<open>
  \<^verbatim>\<open>conduit_select_wait\<close> sleeps between its rounds, and other threads run meanwhile.
  The argument \<open>world\<close> gives, for the round entered with \<^verbatim>\<open>elapsed = k\<close>, the channels
  as the poll of that round reads them and as the scan for \<^verbatim>\<open>all_closed\<close> reads them
  afterwards. The loop need not end (\<^verbatim>\<open>timeout_ms = 0\<close> and nothing ever ready), so it is
  a partial function: \<open>None\<close> means that the call never returns, \<open>Some (r, n)\<close> that it
  returns \<open>r\<close> after \<open>n\<close> sleeps of one millisecond.
\<close>

type_synonym 'a world = "nat \<Rightarrow> 'a select_case list \<times> 'a select_case list"

partial_function (option) select_wait_loop ::
  "'a world \<Rightarrow> nat \<Rightarrow> nat \<Rightarrow> (nat option \<times> nat) option" where
  "select_wait_loop world timeout_ms elapsed =
     (if timeout_ms = 0 \<or> elapsed < timeout_ms then
        (case conduit_select_poll (fst (world elapsed)) of
           Some i \<Rightarrow> Some (Some i, elapsed)
         | None \<Rightarrow>
             if all_closed_scan (snd (world elapsed)) then Some (None, elapsed)
             else select_wait_loop world timeout_ms (elapsed + 1))
      else Some (None, elapsed))"

definition conduit_select_wait :: "'a world \<Rightarrow> nat \<Rightarrow> (nat option \<times> nat) option" where
  "conduit_select_wait world timeout_ms = select_wait_loop world timeout_ms 0"

subsection \<open>Well-formed channels and the queue they hold\<close>

text \<open>
  The state a channel built by a constructor is in, and stays in: the buffer has
  \<open>capacity\<close> slots, the occupancy is within the capacity, \<open>tail\<close> is \<open>count\<close> slots
  after \<open>head\<close>, and a buffered channel never uses the pending slot.
\<close>

definition chan_inv :: "'a conduit_channel_t \<Rightarrow> bool" where
  "chan_inv ch \<longleftrightarrow>
     length (buffer ch) = capacity ch \<and> count ch \<le> capacity ch \<and>
     (if capacity ch = 0 then head ch = 0 \<and> tail ch = 0
      else head ch < capacity ch \<and> tail ch = (head ch + count ch) mod capacity ch \<and>
           \<not> pending_ready ch \<and> \<not> pending_taken ch \<and> pending_value ch = None)"

text \<open>The occupied slots of the circular buffer, from \<open>head\<close> on: the oldest value first.\<close>

definition queued :: "'a conduit_channel_t \<Rightarrow> 'a option list" where
  "queued ch = map (\<lambda>i. buffer ch ! ((head ch + i) mod capacity ch)) [0..<count ch]"

subsection \<open>One thread calling in sequence\<close>

text \<open>
  A thread that calls \<^verbatim>\<open>send\<close> for each value of a list, and one that calls \<^verbatim>\<open>recv\<close>
  \<open>n\<close> times, with no other thread running. The thread goes on to the next call only
  when the call returns; the outcomes are listed in order.
\<close>

fun send_seq :: "'a conduit_channel_t \<Rightarrow> 'a list \<Rightarrow> 'a conduit_channel_t \<times> bool outcome list" where
  "send_seq ch [] = (ch, [])"
| "send_seq ch (v # vs) =
     (case conduit_channel_send ch v of
        (ch', es, Return b) \<Rightarrow> (case send_seq ch' vs of (ch'', rs) \<Rightarrow> (ch'', Return b # rs))
      | (ch', es, r) \<Rightarrow> (ch', [r]))"

fun recv_seq ::
  "'a conduit_channel_t \<Rightarrow> nat \<Rightarrow> 'a conduit_channel_t \<times> 'a option option outcome list" where
  "recv_seq ch 0 = (ch, [])"
| "recv_seq ch (Suc n) =
     (case conduit_channel_recv ch of
        (ch', es, Return x) \<Rightarrow> (case recv_seq ch' n of (ch'', rs) \<Rightarrow> (ch'', Return x # rs))
      | (ch', es, r) \<Rightarrow> (ch', [r]))"

text \<open>Two calls of \<^verbatim>\<open>close\<close> in a row: the final state, all effects in order, the last result.\<close>

definition close_twice :: "'a conduit_channel_t \<Rightarrow> ('a, unit) step" where
  "close_twice ch =
     (case conduit_channel_close ch of
        (ch1, es1, r1) \<Rightarrow>
          (case conduit_channel_close ch1 of (ch2, es2, r2) \<Rightarrow> (ch2, es1 @ es2, r2)))"

subsection \<open>Readiness and quiet rounds\<close>

text \<open>
  Readiness of a select case in the words of the specification: a send case is ready
  when the channel is open and buffered with room; a receive case is ready when the
  buffer holds a value, or the channel is unbuffered and its pending value is unclaimed,
  or the channel is closed.
\<close>

definition spec_ready :: "'a select_case \<Rightarrow> bool" where
  "spec_ready c =
     (case c of (ch, is_send) \<Rightarrow>
        if is_send then \<not> closed ch \<and> capacity ch > 0 \<and> count ch < capacity ch
        else count ch > 0 \<or> (capacity ch = 0 \<and> pending_ready ch \<and> \<not> pending_taken ch) \<or>
             closed ch)"

text \<open>
  A round of \<^verbatim>\<open>conduit_select_wait\<close> is quiet when no pair is ready for its poll and
  some monitored channel is still open when the round looks at the closed flags.
\<close>

definition quiet_round :: "'a world \<Rightarrow> nat \<Rightarrow> bool" where
  "quiet_round world k \<longleftrightarrow>
     conduit_select_poll (fst (world k)) = None \<and>
     (\<exists>c \<in> set (snd (world k)). \<not> closed (fst c))"

subsection \<open>Threads sharing one channel\<close>

text \<open>
  Any schedule of threads is a sequence of critical sections. \<open>chan_op\<close> names them:
  the calls, and \<open>Op_send_wake v\<close> for a sender of \<open>v\<close> that wakes in the wait loop of
  the unbuffered send (a woken buffered sender or receiver continues as a fresh call).
\<close>

datatype 'a chan_op =
    Op_send 'a
  | Op_send_wake 'a
  | Op_recv
  | Op_try_send 'a
  | Op_try_recv
  | Op_close

fun exec_op :: "'a conduit_channel_t \<Rightarrow> 'a chan_op \<Rightarrow> 'a conduit_channel_t" where
  "exec_op ch (Op_send v) = fst (conduit_channel_send ch v)"
| "exec_op ch (Op_send_wake v) = fst (send_unbuffered_wait ch v)"
| "exec_op ch Op_recv = fst (conduit_channel_recv ch)"
| "exec_op ch (Op_try_send v) = fst (conduit_channel_try_send ch v)"
| "exec_op ch Op_try_recv = fst (conduit_channel_try_recv ch)"
| "exec_op ch Op_close = fst (conduit_channel_close ch)"

text \<open>
  A channel shared by any number of threads, with what an observer records about it:
  the values of the senders suspended in the wait loop of the unbuffered send, the
  values deposited into the pending slot so far, the values whose \<^verbatim>\<open>send\<close> returned
  true, the pointers handed out by \<^verbatim>\<open>recv\<close> and \<^verbatim>\<open>try_recv\<close> so far, and how often
  \<^verbatim>\<open>pending_taken\<close> went from false to true.
  The mutex makes every critical section atomic, so a run of the threads is a list of
  \<open>chan_op\<close>; a suspended thread may wake at any point (POSIX allows spurious
  wake-ups, and the loops of the source check their condition again). The value of each
  \<^verbatim>\<open>send\<close> call is a fresh one, so that a value identifies the call that deposited it;
  \<open>sys_exec\<close> is \<open>None\<close> for a step that cannot happen (a value used twice, a wake-up
  of a sender that is not suspended).
\<close>

record 'a sys =
  chan :: "'a conduit_channel_t"
  waiting :: "'a list"
  deposited :: "'a list"
  succeeded :: "'a list"
  delivered :: "'a option list"
  takes :: nat

definition observe :: "'a sys \<Rightarrow> 'a conduit_channel_t \<Rightarrow> 'a sys" where
  "observe s ch' =
     s\<lparr> chan := ch',
        takes := takes s + (if \<not> pending_taken (chan s) \<and> pending_taken ch' then 1 else 0) \<rparr>"

fun sys_exec :: "'a sys \<Rightarrow> 'a chan_op \<Rightarrow> 'a sys option" where
  "sys_exec s (Op_send v) =
     (if v \<in> set (deposited s) then None
      else case conduit_channel_send (chan s) v of
        (ch', es, r) \<Rightarrow>
          Some ((observe s ch')
            \<lparr> waiting := (if r = Cond_wait not_full then v # waiting s else waiting s),
              deposited := (if \<not> closed (chan s) \<and> capacity (chan s) = 0
                            then deposited s @ [v] else deposited s),
              succeeded := (if r = Return True then succeeded s @ [v] else succeeded s) \<rparr>))"
| "sys_exec s (Op_send_wake v) =
     (if v \<notin> set (waiting s) then None
      else case send_unbuffered_wait (chan s) v of
        (ch', es, r) \<Rightarrow>
          Some ((observe s ch')
            \<lparr> waiting := (if r = Cond_wait not_full then waiting s
                          else remove1 v (waiting s)),
              succeeded := (if r = Return True then succeeded s @ [v] else succeeded s) \<rparr>))"
| "sys_exec s Op_recv =
     (case conduit_channel_recv (chan s) of
        (ch', es, r) \<Rightarrow>
          Some ((observe s ch')
            \<lparr> delivered := (case r of Return (Some p) \<Rightarrow> delivered s @ [p]
                            | _ \<Rightarrow> delivered s) \<rparr>))"
| "sys_exec s (Op_try_send v) =
     (case conduit_channel_try_send (chan s) v of (ch', es, r) \<Rightarrow> Some (observe s ch'))"
| "sys_exec s Op_try_recv =
     (case conduit_channel_try_recv (chan s) of
        (ch', es, r) \<Rightarrow>
          Some ((observe s ch')
            \<lparr> delivered := (case r of Return (Try_ok p) \<Rightarrow> delivered s @ [p]
                            | _ \<Rightarrow> delivered s) \<rparr>))"
| "sys_exec s Op_close =
     (case conduit_channel_close (chan s) of (ch', es, r) \<Rightarrow> Some (observe s ch'))"

fun sys_run :: "'a sys \<Rightarrow> 'a chan_op list \<Rightarrow> 'a sys option" where
  "sys_run s [] = Some s"
| "sys_run s (e # es) = (case sys_exec s e of None \<Rightarrow> None | Some s' \<Rightarrow> sys_run s' es)"

definition sys_init :: "'a conduit_channel_t \<Rightarrow> 'a sys" where
  "sys_init ch =
     \<lparr> chan = ch, waiting = [], deposited = [], succeeded = [], delivered = [], takes = 0 \<rparr>"

text \<open>
  A run in which the senders do not overlap: \<^verbatim>\<open>send\<close> is never called while another
  sender is suspended in the wait loop.
\<close>

fun overlap_free :: "'a sys \<Rightarrow> 'a chan_op list \<Rightarrow> bool" where
  "overlap_free s [] = True"
| "overlap_free s (e # es) =
     ((case e of Op_send v \<Rightarrow> waiting s = [] | _ \<Rightarrow> True) \<and>
      (case sys_exec s e of None \<Rightarrow> True | Some s' \<Rightarrow> overlap_free s' es))"

text \<open>
  What holds of the shared unbuffered channel at every point of a run: the values
  handed out are pairwise different and were all deposited, \<open>takes\<close> counts them, and
  an unclaimed pending value is a deposited value not handed out yet.
\<close>

definition handoff_inv :: "'a sys \<Rightarrow> bool" where
  "handoff_inv s \<longleftrightarrow>
     capacity (chan s) = 0 \<and> distinct (delivered s) \<and>
     set (delivered s) \<subseteq> Some ` set (deposited s) \<and>
     takes s = length (delivered s) \<and>
     (if pending_ready (chan s) \<and> \<not> pending_taken (chan s)
      then pending_value (chan s) \<in> Some ` set (deposited s) \<and>
           pending_value (chan s) \<notin> set (delivered s)
      else True)"

text \<open>
  What holds in addition while the senders do not overlap: at most one sender is
  suspended; the pending slot is idle when none is; the slot holds the value of the
  suspended sender, which has been handed out once \<open>pending_taken\<close> is set; and every
  value whose send returned true has been handed out.
\<close>

definition solo_inv :: "'a sys \<Rightarrow> bool" where
  "solo_inv s \<longleftrightarrow>
     capacity (chan s) = 0 \<and>
     (\<forall>v \<in> set (succeeded s). Some v \<in> set (delivered s)) \<and>
     (case waiting s of
        [] \<Rightarrow> \<not> pending_ready (chan s) \<and> \<not> pending_taken (chan s)
      | [v] \<Rightarrow> pending_value (chan s) = Some v \<and>
               (if pending_taken (chan s) then Some v \<in> set (delivered s) else True)
      | _ \<Rightarrow> False)"

subsection \<open>States used in the examples\<close>

text \<open>
  Channels: a fresh one of capacity 3, one whose queue wraps around, a full one, a fresh
  unbuffered one, a host on which every allocation succeeds, an unbuffered channel closed
  while the value of a suspended sender is unclaimed, and a fresh one of capacity 2.
\<close>

definition example_fresh :: "nat conduit_channel_t" where
  "example_fresh =
     \<lparr> buffer = replicate 3 None, capacity = 3, head = 0, tail = 0, count = 0,
       pending_value = None, pending_ready = False, pending_taken = False, closed = False \<rparr>"

definition example_wrapped :: "nat conduit_channel_t" where
  "example_wrapped =
     \<lparr> buffer = [Some 7, None, Some 5], capacity = 3, head = 2, tail = 1, count = 2,
       pending_value = None, pending_ready = False, pending_taken = False, closed = False \<rparr>"

definition example_full :: "nat conduit_channel_t" where
  "example_full =
     \<lparr> buffer = [Some 1, Some 2], capacity = 2, head = 1, tail = 1, count = 2,
       pending_value = None, pending_ready = False, pending_taken = False, closed = False \<rparr>"

definition example_unbuffered :: "nat conduit_channel_t" where
  "example_unbuffered =
     \<lparr> buffer = [], capacity = 0, head = 0, tail = 0, count = 0,
       pending_value = None, pending_ready = False, pending_taken = False, closed = False \<rparr>"

definition example_host :: host where
  "example_host =
     \<lparr> malloc_ok = True, calloc_ok = True, mutex_init_ok = True,
       not_empty_init_ok = True, not_full_init_ok = True \<rparr>"

definition example_closed_pending :: "nat conduit_channel_t" where
  "example_closed_pending =
     fst (conduit_channel_close (fst (conduit_channel_send example_unbuffered 42)))"

definition example_two :: "nat conduit_channel_t" where
  "example_two =
     \<lparr> buffer = [None, None], capacity = 2, head = 0, tail = 0, count = 0,
       pending_value = None, pending_ready = False, pending_taken = False, closed = False \<rparr>"

text \<open>
  Worlds for examples: one where another thread sends 5 into the second channel during
  the second sleep, and one where the only case is a send on a closed channel.
\<close>

definition example_world :: "nat world" where
  "example_world k =
     (if k < 2 then ([(example_fresh, False), (example_two, False)],
                     [(example_fresh, False), (example_two, False)])
      else ([(example_fresh, False), (exec_op example_two (Op_send 5), False)],
            [(example_fresh, False), (exec_op example_two (Op_send 5), False)]))"

definition example_closed_world :: "nat world" where
  "example_closed_world k =
     ([(example_full\<lparr> closed := True \<rparr>, True)], [(example_full\<lparr> closed := True \<rparr>, True)])"

text \<open>
  A world that never changes, with send cases on a closed full channel and on an open
  full one: no pair is ever ready and the second channel is always open. And a world
  that never changes in which the second pair is ready.
\<close>

definition example_mixed_world :: "nat world" where
  "example_mixed_world k =
     ([(example_full\<lparr> closed := True \<rparr>, True), (example_full, True)],
      [(example_full\<lparr> closed := True \<rparr>, True), (example_full, True)])"

definition example_ready_world :: "nat world" where
  "example_ready_world k =
     ([(example_fresh, False), (example_wrapped, False)],
      [(example_fresh, False), (example_wrapped, False)])"

text \<open>The shared channel after two handoffs, with the second sender still suspended.\<close>

definition example_handoffs :: "nat sys" where
  "example_handoffs =
     \<lparr> chan = example_unbuffered\<lparr> pending_value := Some 2, pending_taken := True \<rparr>,
       waiting = [2], deposited = [1, 2], succeeded = [1], delivered = [Some 1, Some 2],
       takes = 2 \<rparr>"

text \<open>The shared channel after two overlapping sends, one receive and the first wake-up.\<close>

definition example_overwritten :: "nat sys" where
  "example_overwritten =
     \<lparr> chan = example_unbuffered, waiting = [2], deposited = [1, 2], succeeded = [1],
       delivered = [Some 2], takes = 1 \<rparr>"

section \<open>Properties\<close>

subsection \<open>The circular buffer\<close>

lemma ring_index_le:
  fixes h :: nat
  assumes "a \<le> b" "b < c" "(h + a) mod c = (h + b) mod c"
  shows "a = b"
proof -
  have "c dvd (h + b) - (h + a)"
    using mod_eq_dvd_iff_nat [of "h + a" "h + b" c] assms by simp
  then have "c dvd b - a" by simp
  moreover have "b - a < c" using assms by simp
  ultimately have "b - a = 0"
    using nat_dvd_not_less [of "b - a" c] by (cases "b - a = 0") auto
  with assms show ?thesis by simp
qed

lemma ring_index_inj:
  fixes h :: nat
  assumes "a < c" "b < c" "(h + a) mod c = (h + b) mod c"
  shows "a = b"
proof (cases "a \<le> b")
  case True
  with assms show ?thesis by (simp add: ring_index_le)
next
  case False
  then have "b \<le> a" by simp
  with assms ring_index_le [of b a c h] show ?thesis by simp
qed

lemma ring_step: "((h + 1) mod c + i) mod c = (h + Suc i) mod (c::nat)"
  by (simp add: mod_add_left_eq)

lemma queued_enqueue:
  assumes inv: "chan_inv ch" and cap: "capacity ch \<noteq> 0" and room: "count ch < capacity ch"
  shows "queued (ch\<lparr> buffer := (buffer ch)[tail ch := Some v],
                     tail := (tail ch + 1) mod capacity ch,
                     count := count ch + 1 \<rparr>) = queued ch @ [Some v]"
proof -
  let ?c = "capacity ch"
  from inv cap have len: "length (buffer ch) = ?c" and t: "tail ch = (head ch + count ch) mod ?c"
    by (simp_all add: chan_inv_def)
  have tl: "tail ch < ?c" using t cap by simp
  have old: "(buffer ch)[tail ch := Some v] ! ((head ch + i) mod ?c) = buffer ch ! ((head ch + i) mod ?c)"
    if "i < count ch" for i
  proof -
    have "(head ch + i) mod ?c \<noteq> (head ch + count ch) mod ?c"
      using ring_index_inj [of i ?c "count ch" "head ch"] that room by auto
    then show ?thesis using t by simp
  qed
  have new: "(buffer ch)[tail ch := Some v] ! ((head ch + count ch) mod ?c) = Some v"
    using t tl len by simp
  show ?thesis
    using old new by (simp add: queued_def)
qed

lemma inv_enqueue:
  assumes inv: "chan_inv ch" and cap: "capacity ch \<noteq> 0" and room: "count ch < capacity ch"
  shows "chan_inv (ch\<lparr> buffer := (buffer ch)[tail ch := Some v],
                     tail := (tail ch + 1) mod capacity ch,
                     count := count ch + 1 \<rparr>)"
  using assms by (simp add: chan_inv_def mod_Suc_eq)

lemma queued_dequeue:
  assumes inv: "chan_inv ch" and cap: "capacity ch \<noteq> 0" and ne: "count ch \<noteq> 0"
  shows "queued (ch\<lparr> buffer := (buffer ch)[head ch := None],
                     head := (head ch + 1) mod capacity ch,
                     count := count ch - 1 \<rparr>) = tl (queued ch)"
    and "buffer ch ! head ch = hd (queued ch)"
proof -
  let ?c = "capacity ch"
  from inv cap have len: "length (buffer ch) = ?c" and h: "head ch < ?c" and cnt: "count ch \<le> ?c"
    by (simp_all add: chan_inv_def)
  have old: "(buffer ch)[head ch := None] ! (((head ch + 1) mod ?c + i) mod ?c)
      = buffer ch ! ((head ch + Suc i) mod ?c)"
    if "i < count ch - 1" for i
  proof -
    have "Suc i < ?c" using that cnt by simp
    then have "(head ch + Suc i) mod ?c \<noteq> (head ch + 0) mod ?c"
      using ring_index_inj [of "Suc i" ?c 0 "head ch"] by auto
    then have "(head ch + Suc i) mod ?c \<noteq> head ch" using h by simp
    moreover have "((head ch + 1) mod ?c + i) mod ?c = (head ch + Suc i) mod ?c"
      by (rule ring_step)
    ultimately show ?thesis by (simp only: nth_list_update_neq not_sym)
  qed
  obtain k where k: "count ch = Suc k" using ne by (cases "count ch") auto
  have "tl (queued ch) = map (\<lambda>i. buffer ch ! ((head ch + i) mod ?c)) [Suc 0..<Suc k]"
    by (simp add: queued_def k map_tl [symmetric] del: upt_Suc map_tl)
  also have "[Suc 0..<Suc k] = map Suc [0..<k]"
    by (rule map_Suc_upt [symmetric])
  finally have "tl (queued ch) = map (\<lambda>i. buffer ch ! ((head ch + Suc i) mod ?c)) [0..<count ch - 1]"
    by (simp add: k comp_def del: upt_Suc)
  then show "queued (ch\<lparr> buffer := (buffer ch)[head ch := None],
                     head := (head ch + 1) mod capacity ch,
                     count := count ch - 1 \<rparr>) = tl (queued ch)"
    using old by (simp add: queued_def)
  show "buffer ch ! head ch = hd (queued ch)"
    using ne h by (simp add: queued_def hd_map upt_conv_Cons)
qed

lemma inv_dequeue:
  assumes inv: "chan_inv ch" and cap: "capacity ch \<noteq> 0" and ne: "count ch \<noteq> 0"
  shows "chan_inv (ch\<lparr> buffer := (buffer ch)[head ch := None],
                     head := (head ch + 1) mod capacity ch,
                     count := count ch - 1 \<rparr>)"
proof -
  obtain k where k: "count ch = Suc k" using ne by (cases "count ch") auto
  have "((head ch + 1) mod capacity ch + k) mod capacity ch = (head ch + Suc k) mod capacity ch"
    by (rule ring_step)
  with assms k show ?thesis by (simp add: chan_inv_def)
qed

subsection \<open>Sequential runs\<close>

lemma length_queued: "length (queued ch) = count ch"
  by (simp add: queued_def)

lemma send_enqueues:
  assumes "chan_inv ch" "capacity ch \<noteq> 0" "\<not> closed ch" "count ch < capacity ch"
  shows "conduit_channel_send ch v =
           (ch\<lparr> buffer := (buffer ch)[tail ch := Some v],
                tail := (tail ch + 1) mod capacity ch,
                count := count ch + 1 \<rparr>, [Cond_signal not_empty], Return True)"
proof -
  from assms have "tail ch < length (buffer ch)" by (simp add: chan_inv_def)
  with assms show ?thesis
    by (simp add: conduit_channel_send_def send_buffered_wait_def)
qed

lemma recv_dequeues:
  assumes "chan_inv ch" "capacity ch \<noteq> 0" "count ch \<noteq> 0"
  shows "conduit_channel_recv ch =
           (ch\<lparr> buffer := (buffer ch)[head ch := None],
                head := (head ch + 1) mod capacity ch,
                count := count ch - 1 \<rparr>, [Cond_signal not_full],
            Return (Some (hd (queued ch))))"
proof -
  from assms have "head ch < length (buffer ch)" by (simp add: chan_inv_def)
  with assms queued_dequeue(2) [of ch] show ?thesis
    by (simp add: conduit_channel_recv_def)
qed

lemma recv_drained:
  assumes "capacity ch \<noteq> 0" "count ch = 0" "closed ch"
  shows "conduit_channel_recv ch = (ch, [], Return None)"
  using assms by (simp add: conduit_channel_recv_def)

lemma send_seq_step:
  "conduit_channel_send ch v = (ch', es, Return b) \<Longrightarrow>
   send_seq ch (v # vs) = (fst (send_seq ch' vs), Return b # snd (send_seq ch' vs))"
  by (simp add: case_prod_beta)

lemma recv_seq_step:
  "conduit_channel_recv ch = (ch', es, Return x) \<Longrightarrow>
   recv_seq ch (Suc n) = (fst (recv_seq ch' n), Return x # snd (recv_seq ch' n))"
  by (simp add: case_prod_beta)

lemma send_seq_queued:
  assumes "chan_inv ch" "capacity ch \<noteq> 0" "\<not> closed ch" "count ch + length vs \<le> capacity ch"
  shows "snd (send_seq ch vs) = map (\<lambda>v. Return True) vs \<and>
         chan_inv (fst (send_seq ch vs)) \<and>
         queued (fst (send_seq ch vs)) = queued ch @ map Some vs \<and>
         capacity (fst (send_seq ch vs)) = capacity ch \<and>
         count (fst (send_seq ch vs)) = count ch + length vs \<and>
         closed (fst (send_seq ch vs)) = closed ch"
  using assms
proof (induction vs arbitrary: ch)
  case Nil
  then show ?case by simp
next
  case (Cons v vs)
  let ?ch' = "ch\<lparr> buffer := (buffer ch)[tail ch := Some v],
                tail := (tail ch + 1) mod capacity ch,
                count := count ch + 1 \<rparr>"
  from Cons.prems have room: "count ch < capacity ch" by simp
  have step: "conduit_channel_send ch v = (?ch', [Cond_signal not_empty], Return True)"
    using Cons.prems room by (simp add: send_enqueues)
  have inv': "chan_inv ?ch'" using Cons.prems(1,2) room by (rule inv_enqueue)
  have q': "queued ?ch' = queued ch @ [Some v]" using Cons.prems(1,2) room by (rule queued_enqueue)
  have IH: "snd (send_seq ?ch' vs) = map (\<lambda>v. Return True) vs \<and>
         chan_inv (fst (send_seq ?ch' vs)) \<and>
         queued (fst (send_seq ?ch' vs)) = queued ?ch' @ map Some vs \<and>
         capacity (fst (send_seq ?ch' vs)) = capacity ?ch' \<and>
         count (fst (send_seq ?ch' vs)) = count ?ch' + length vs \<and>
         closed (fst (send_seq ?ch' vs)) = closed ?ch'"
    using Cons.prems inv' by (intro Cons.IH) simp_all
  show ?case
    using IH q' by (simp add: send_seq_step [OF step] del: send_seq.simps)
qed

lemma recv_seq_queued:
  assumes "chan_inv ch" "capacity ch \<noteq> 0" "closed ch \<or> n \<le> count ch"
  shows "snd (recv_seq ch n) =
           map (\<lambda>p. Return (Some p)) (take n (queued ch)) @ replicate (n - count ch) (Return None)"
  using assms
proof (induction n arbitrary: ch)
  case 0
  then show ?case by simp
next
  case (Suc n)
  show ?case
  proof (cases "count ch = 0")
    case True
    with Suc.prems have cl: "closed ch" by auto
    have step: "conduit_channel_recv ch = (ch, [], Return None)"
      using Suc.prems True cl by (simp add: recv_drained)
    have "snd (recv_seq ch n) =
           map (\<lambda>p. Return (Some p)) (take n (queued ch)) @ replicate (n - count ch) (Return None)"
      using Suc.prems cl by (intro Suc.IH) simp_all
    moreover have "queued ch = []" using True length_queued [of ch] by simp
    ultimately show ?thesis using True by (simp add: recv_seq_step [OF step] del: recv_seq.simps)
  next
    case False
    let ?ch' = "ch\<lparr> buffer := (buffer ch)[head ch := None],
                head := (head ch + 1) mod capacity ch,
                count := count ch - 1 \<rparr>"
    have step: "conduit_channel_recv ch = (?ch', [Cond_signal not_full], Return (Some (hd (queued ch))))"
      using Suc.prems False by (simp add: recv_dequeues)
    have inv': "chan_inv ?ch'" using Suc.prems(1,2) False by (rule inv_dequeue)
    have q': "queued ?ch' = tl (queued ch)" using Suc.prems(1,2) False by (rule queued_dequeue(1))
    have ne: "queued ch \<noteq> []" using False length_queued [of ch] by auto
    have "snd (recv_seq ?ch' n) =
           map (\<lambda>p. Return (Some p)) (take n (queued ?ch')) @ replicate (n - count ?ch') (Return None)"
      using Suc.prems inv' False by (intro Suc.IH) auto
    then show ?thesis
      using q' ne False by (cases "queued ch") (simp_all add: recv_seq_step [OF step] del: recv_seq.simps)
  qed
qed

lemma send_woken_buffered:
  "capacity ch \<noteq> 0 \<Longrightarrow> send_buffered_wait ch v = conduit_channel_send ch v"
  by (simp add: conduit_channel_send_def send_buffered_wait_def)

subsection \<open>FIFO order\<close>

text \<open>
  Claim C1. Take a well-formed open buffered channel of capacity \<open>C\<close> and values
  \<open>v1..vk\<close> that fit beside the values it already holds. Then every one of the \<open>k\<close>
  sends returns true without waiting, and the receives that follow return first the
  values held before and then \<open>v1..vk\<close>, in that order. For an empty channel
  (\<open>k \<le> C\<close>), \<open>k\<close> sends followed by \<open>k\<close> receives yield exactly \<open>v1..vk\<close>.
\<close>

theorem buffered_fifo:
  assumes "chan_inv ch" and "capacity ch = C" and "C \<noteq> 0" and "\<not> closed ch"
    and "count ch + length vs \<le> C"
  shows "snd (send_seq ch vs) = map (\<lambda>v. Return True) vs \<and>
         snd (recv_seq (fst (send_seq ch vs)) (count ch + length vs)) =
           map (\<lambda>p. Return (Some p)) (queued ch @ map Some vs) \<and>
         (count ch = 0 \<longrightarrow>
            snd (recv_seq (fst (send_seq ch vs)) (length vs)) =
              map (\<lambda>v. Return (Some (Some v))) vs)"
proof -
  let ?ch' = "fst (send_seq ch vs)"
  have sent: "snd (send_seq ch vs) = map (\<lambda>v. Return True) vs" "chan_inv ?ch'"
    "queued ?ch' = queued ch @ map Some vs" "capacity ?ch' = capacity ch"
    "count ?ch' = count ch + length vs"
    using send_seq_queued [of ch vs] assms by simp_all
  have "snd (recv_seq ?ch' (count ch + length vs)) =
          map (\<lambda>p. Return (Some p)) (take (count ch + length vs) (queued ?ch')) @
          replicate (count ch + length vs - count ?ch') (Return None)"
    using sent assms by (intro recv_seq_queued) simp_all
  then have all: "snd (recv_seq ?ch' (count ch + length vs)) =
      map (\<lambda>p. Return (Some p)) (queued ch @ map Some vs)"
    using sent length_queued [of ch] by simp
  have "snd (recv_seq ?ch' (length vs)) = map (\<lambda>v. Return (Some (Some v))) vs"
    if "count ch = 0"
  proof -
    have "queued ch = []" using that length_queued [of ch] by simp
    with all that show ?thesis by (simp add: comp_def)
  qed
  with sent(1) all show ?thesis by simp
qed

theorem buffered_fifo_witness:
  "conduit_channel_new_buffered example_host 3 = Inr example_fresh \<and>
   chan_inv example_fresh \<and> capacity example_fresh = 3 \<and> \<not> closed example_fresh \<and>
   count example_fresh = 0 \<and>
   snd (send_seq example_fresh [10, 20, 30]) = [Return True, Return True, Return True] \<and>
   snd (recv_seq (fst (send_seq example_fresh [10, 20, 30])) 3) =
     [Return (Some (Some 10)), Return (Some (Some 20)), Return (Some (Some 30))]"
proof -
  have inv: "chan_inv example_fresh" by (simp add: chan_inv_def example_fresh_def)
  have cap: "capacity example_fresh = 3" and op: "\<not> closed example_fresh"
    and cnt: "count example_fresh = 0"
    by (simp_all add: example_fresh_def)
  have q: "queued example_fresh = []" by (simp add: queued_def cnt)
  have fits: "count example_fresh + length [10, 20, 30 :: nat] \<le> 3" by (simp add: cnt)
  have new: "conduit_channel_new_buffered example_host 3 = Inr example_fresh"
    by (simp add: conduit_channel_new_buffered_def example_host_def example_fresh_def)
  from buffered_fifo [OF inv cap _ op fits] cnt inv cap op q new show ?thesis
    by (simp add: numeral_3_eq_3 del: send_seq.simps recv_seq.simps)
qed

subsection \<open>Draining a closed channel\<close>

text \<open>
  Claim C2. Closing a well-formed buffered channel that holds \<open>N\<close> values keeps
  these values and their order; the next \<open>N\<close> receives return them, oldest first, each
  as a present value, and every receive after those returns absent.
\<close>

theorem drain_after_close:
  assumes "chan_inv ch" and "capacity ch \<noteq> 0"
  shows "queued (fst (conduit_channel_close ch)) = queued ch \<and>
         count (fst (conduit_channel_close ch)) = count ch \<and>
         snd (recv_seq (fst (conduit_channel_close ch)) (count ch + m)) =
           map (\<lambda>p. Return (Some p)) (queued ch) @ replicate m (Return None)"
proof -
  let ?ch' = "fst (conduit_channel_close ch)"
  have c: "?ch' = ch\<lparr> closed := True \<rparr>"
    by (cases "closed ch") (simp_all add: conduit_channel_close_def)
  have q: "queued ?ch' = queued ch" and n: "count ?ch' = count ch"
    and cl: "closed ?ch'" and cap: "capacity ?ch' \<noteq> 0" and inv: "chan_inv ?ch'"
    using assms by (simp_all add: c queued_def chan_inv_def)
  have "snd (recv_seq ?ch' (count ch + m)) =
          map (\<lambda>p. Return (Some p)) (take (count ch + m) (queued ?ch')) @
          replicate (count ch + m - count ?ch') (Return None)"
    using inv cap cl by (intro recv_seq_queued) simp_all
  with q n length_queued [of ch] show ?thesis by simp
qed

theorem drain_after_close_witness:
  "chan_inv example_wrapped \<and> capacity example_wrapped \<noteq> 0 \<and>
   queued example_wrapped = [Some 5, Some 7] \<and>
   snd (recv_seq (fst (conduit_channel_close example_wrapped)) (2 + 2)) =
     [Return (Some (Some 5)), Return (Some (Some 7)), Return None, Return None]"
proof -
  have inv: "chan_inv example_wrapped" by (simp add: chan_inv_def example_wrapped_def)
  have cap: "capacity example_wrapped \<noteq> 0" and cnt: "count example_wrapped = 2"
    by (simp_all add: example_wrapped_def)
  have q: "queued example_wrapped = [Some 5, Some 7]"
    by (simp add: queued_def example_wrapped_def upt_conv_Cons)
  from drain_after_close [OF inv cap, of 2] q inv cap cnt show ?thesis
    by (simp add: numeral_2_eq_2 del: recv_seq.simps)
qed

subsection \<open>Close\<close>

text \<open>
  Claim C5. Close is idempotent: two calls in a row leave the same state, the same
  effects and the same result as one call. The first call on an open channel sets
  \<open>closed\<close> and broadcasts on \<open>not_empty\<close> and on \<open>not_full\<close>; a call on a closed
  channel changes nothing, has no effect and returns normally.
\<close>

theorem close_idempotent:
  "close_twice ch = conduit_channel_close ch \<and>
   (\<not> closed ch \<longrightarrow>
      conduit_channel_close ch =
        (ch\<lparr> closed := True \<rparr>, [Cond_broadcast not_empty, Cond_broadcast not_full], Return ())) \<and>
   (closed ch \<longrightarrow> conduit_channel_close ch = (ch, [], Return ())) \<and>
   conduit_channel_close (fst (conduit_channel_close ch)) =
     (fst (conduit_channel_close ch), [], Return ())"
  by (simp add: close_twice_def conduit_channel_close_def)

theorem close_idempotent_witness:
  "\<not> closed example_wrapped \<and>
   conduit_channel_close example_wrapped =
     (example_wrapped\<lparr> closed := True \<rparr>,
      [Cond_broadcast not_empty, Cond_broadcast not_full], Return ()) \<and>
   closed (example_wrapped\<lparr> closed := True \<rparr>) \<and>
   conduit_channel_close (example_wrapped\<lparr> closed := True \<rparr>) =
     (example_wrapped\<lparr> closed := True \<rparr>, [], Return ()) \<and>
   close_twice example_wrapped = conduit_channel_close example_wrapped"
proof -
  have "\<not> closed example_wrapped" by (simp add: example_wrapped_def)
  moreover have "closed (example_wrapped\<lparr> closed := True \<rparr>)" by simp
  ultimately show ?thesis
    using close_idempotent [of example_wrapped]
      close_idempotent [of "example_wrapped\<lparr> closed := True \<rparr>"]
    by simp
qed

subsection \<open>Failed sends\<close>

text \<open>
  Claim C6. On a closed channel \<^verbatim>\<open>send\<close> returns false at once, releases the value
  (its only effect is \<^verbatim>\<open>lean_dec\<close> of the value) and leaves the channel as it was.
  Every \<^verbatim>\<open>try_send\<close> that returns a code other than ok releases the value and leaves
  the channel as it was. A suspended sender that wakes and returns false releases its
  value as well, and the pending slot no longer holds it.
\<close>

theorem failed_send_releases:
  "(closed ch \<longrightarrow> conduit_channel_send ch v = (ch, [Lean_dec v], Return False)) \<and>
   (\<forall>ch' es c. conduit_channel_try_send ch v = (ch', es, Return c) \<and> c \<noteq> try_send_ok
       \<longrightarrow> ch' = ch \<and> es = [Lean_dec v]) \<and>
   (\<forall>ch' es. send_buffered_wait ch v = (ch', es, Return False)
       \<longrightarrow> ch' = ch \<and> es = [Lean_dec v]) \<and>
   (\<forall>ch' es. send_unbuffered_wait ch v = (ch', es, Return False)
       \<longrightarrow> es = [Lean_dec v] \<and> pending_value ch' = None \<and> \<not> pending_ready ch')"
  by (auto simp: conduit_channel_send_def conduit_channel_try_send_def try_send_ok_def
      send_buffered_wait_def send_unbuffered_wait_def Let_def split: if_splits)

theorem failed_send_releases_witness:
  "closed (example_wrapped\<lparr> closed := True \<rparr>) \<and>
   conduit_channel_send (example_wrapped\<lparr> closed := True \<rparr>) 9 =
     (example_wrapped\<lparr> closed := True \<rparr>, [Lean_dec 9], Return False) \<and>
   conduit_channel_try_send example_full 9 = (example_full, [Lean_dec 9], Return 1) \<and>
   1 \<noteq> try_send_ok \<and>
   send_buffered_wait (example_full\<lparr> closed := True \<rparr>) 9 =
     (example_full\<lparr> closed := True \<rparr>, [Lean_dec 9], Return False) \<and>
   send_unbuffered_wait example_closed_pending 42 =
     (example_unbuffered\<lparr> closed := True \<rparr>, [Lean_dec 42], Return False) \<and>
   pending_value (example_unbuffered\<lparr> closed := True \<rparr>) = None"
proof -
  have t: "conduit_channel_try_send example_full 9 = (example_full, [Lean_dec 9], Return 1)"
    by (simp add: conduit_channel_try_send_def example_full_def)
  have b: "send_buffered_wait (example_full\<lparr> closed := True \<rparr>) 9 =
     (example_full\<lparr> closed := True \<rparr>, [Lean_dec 9], Return False)"
    by (simp add: send_buffered_wait_def)
  have u: "send_unbuffered_wait example_closed_pending 42 =
     (example_unbuffered\<lparr> closed := True \<rparr>, [Lean_dec 42], Return False)"
    by (simp add: example_closed_pending_def conduit_channel_send_def send_unbuffered_wait_def
        conduit_channel_close_def example_unbuffered_def)
  have c: "closed (example_wrapped\<lparr> closed := True \<rparr>)" by simp
  have r: "conduit_channel_send (example_wrapped\<lparr> closed := True \<rparr>) 9 =
     (example_wrapped\<lparr> closed := True \<rparr>, [Lean_dec 9], Return False)"
    using failed_send_releases [of "example_wrapped\<lparr> closed := True \<rparr>" 9] c by blast
  have p: "pending_value (example_unbuffered\<lparr> closed := True \<rparr>) = None"
    using failed_send_releases [of example_closed_pending 42] u by blast
  have k: "1 \<noteq> try_send_ok" by (simp add: try_send_ok_def)
  from c r t k b u p show ?thesis by blast
qed

subsection \<open>Non-blocking send\<close>

text \<open>
  Claim C3. \<^verbatim>\<open>try_send\<close> answers closed whenever the channel is closed, and
  would-block on every open unbuffered channel, whatever the value and the state. On
  an open well-formed buffered channel it answers would-block exactly when
  \<open>count = capacity\<close>; otherwise it stores the value in the slot at \<open>tail\<close>, advances
  \<open>tail\<close>, increments \<open>count\<close>, signals \<open>not_empty\<close> and answers ok, and the value is
  the newest of the queue. On a well-formed channel the answer is one of the three
  codes, which are pairwise different.
\<close>

theorem try_send_tristate:
  "(closed ch \<longrightarrow>
      conduit_channel_try_send ch v = (ch, [Lean_dec v], Return try_send_closed)) \<and>
   (\<not> closed ch \<and> capacity ch = 0 \<longrightarrow>
      conduit_channel_try_send ch v = (ch, [Lean_dec v], Return try_send_would_block)) \<and>
   (\<not> closed ch \<and> capacity ch \<noteq> 0 \<and> chan_inv ch \<longrightarrow>
      (snd (snd (conduit_channel_try_send ch v)) = Return try_send_would_block
         \<longleftrightarrow> count ch = capacity ch) \<and>
      (count ch \<noteq> capacity ch \<longrightarrow>
         conduit_channel_try_send ch v =
           (ch\<lparr> buffer := (buffer ch)[tail ch := Some v],
                tail := (tail ch + 1) mod capacity ch,
                count := count ch + 1 \<rparr>, [Cond_signal not_empty], Return try_send_ok) \<and>
         queued (fst (conduit_channel_try_send ch v)) = queued ch @ [Some v])) \<and>
   (chan_inv ch \<longrightarrow>
      snd (snd (conduit_channel_try_send ch v)) \<in>
        {Return try_send_ok, Return try_send_would_block, Return try_send_closed}) \<and>
   distinct [try_send_ok, try_send_would_block, try_send_closed]"
proof -
  have closed_case: "conduit_channel_try_send ch v = (ch, [Lean_dec v], Return try_send_closed)"
    if "closed ch"
    using that by (simp add: conduit_channel_try_send_def try_send_closed_def)
  have unbuffered_case:
    "conduit_channel_try_send ch v = (ch, [Lean_dec v], Return try_send_would_block)"
    if "\<not> closed ch" "capacity ch = 0"
    using that by (simp add: conduit_channel_try_send_def try_send_would_block_def)
  have full_case:
    "conduit_channel_try_send ch v = (ch, [Lean_dec v], Return try_send_would_block)"
    if "\<not> closed ch" "capacity ch \<noteq> 0" "count ch = capacity ch"
    using that by (simp add: conduit_channel_try_send_def try_send_would_block_def)
  have room_case:
    "conduit_channel_try_send ch v =
           (ch\<lparr> buffer := (buffer ch)[tail ch := Some v],
                tail := (tail ch + 1) mod capacity ch,
                count := count ch + 1 \<rparr>, [Cond_signal not_empty], Return try_send_ok)"
    "queued (fst (conduit_channel_try_send ch v)) = queued ch @ [Some v]"
    if "\<not> closed ch" "capacity ch \<noteq> 0" "chan_inv ch" "count ch \<noteq> capacity ch"
  proof -
    from that have room: "count ch < capacity ch" and t: "tail ch < length (buffer ch)"
      by (simp_all add: chan_inv_def)
    with that show r: "conduit_channel_try_send ch v =
           (ch\<lparr> buffer := (buffer ch)[tail ch := Some v],
                tail := (tail ch + 1) mod capacity ch,
                count := count ch + 1 \<rparr>, [Cond_signal not_empty], Return try_send_ok)"
      by (simp add: conduit_channel_try_send_def try_send_ok_def)
    show "queued (fst (conduit_channel_try_send ch v)) = queued ch @ [Some v]"
      unfolding r fst_conv using that(3,2) room by (rule queued_enqueue)
  qed
  have codes: "distinct [try_send_ok, try_send_would_block, try_send_closed]"
    by (simp add: try_send_ok_def try_send_would_block_def try_send_closed_def)
  have "snd (snd (conduit_channel_try_send ch v)) \<in>
        {Return try_send_ok, Return try_send_would_block, Return try_send_closed}"
    if "chan_inv ch"
  proof (cases "closed ch")
    case True
    then show ?thesis by (simp add: closed_case)
  next
    case open_ch: False
    show ?thesis
    proof (cases "capacity ch = 0")
      case True
      with open_ch show ?thesis by (simp add: unbuffered_case)
    next
      case False
      with open_ch that show ?thesis
        by (cases "count ch = capacity ch") (simp_all add: full_case room_case(1))
    qed
  qed
  moreover have "snd (snd (conduit_channel_try_send ch v)) = Return try_send_would_block
         \<longleftrightarrow> count ch = capacity ch"
    if "\<not> closed ch" "capacity ch \<noteq> 0" "chan_inv ch"
    using that codes by (cases "count ch = capacity ch") (simp_all add: full_case room_case(1))
  ultimately show ?thesis
    using closed_case unbuffered_case room_case codes by blast
qed

theorem try_send_tristate_witness:
  "closed (example_wrapped\<lparr> closed := True \<rparr>) \<and>
   conduit_channel_try_send (example_wrapped\<lparr> closed := True \<rparr>) 9 =
     (example_wrapped\<lparr> closed := True \<rparr>, [Lean_dec 9], Return try_send_closed) \<and>
   \<not> closed example_unbuffered \<and> capacity example_unbuffered = 0 \<and>
   conduit_channel_try_send example_unbuffered 9 =
     (example_unbuffered, [Lean_dec 9], Return try_send_would_block) \<and>
   \<not> closed example_full \<and> capacity example_full \<noteq> 0 \<and> chan_inv example_full \<and>
   count example_full = capacity example_full \<and>
   snd (snd (conduit_channel_try_send example_full 9)) = Return try_send_would_block \<and>
   \<not> closed example_wrapped \<and> capacity example_wrapped \<noteq> 0 \<and> chan_inv example_wrapped \<and>
   count example_wrapped \<noteq> capacity example_wrapped \<and>
   snd (snd (conduit_channel_try_send example_wrapped 9)) = Return try_send_ok \<and>
   queued (fst (conduit_channel_try_send example_wrapped 9)) = [Some 5, Some 7, Some 9]"
proof -
  have w: "\<not> closed example_wrapped" "capacity example_wrapped \<noteq> 0" "chan_inv example_wrapped"
    "count example_wrapped \<noteq> capacity example_wrapped"
    "queued example_wrapped = [Some 5, Some 7]"
    by (simp_all add: example_wrapped_def chan_inv_def queued_def upt_conv_Cons)
  have f: "\<not> closed example_full" "capacity example_full \<noteq> 0" "chan_inv example_full"
    "count example_full = capacity example_full"
    by (simp_all add: example_full_def chan_inv_def)
  have u: "\<not> closed example_unbuffered" "capacity example_unbuffered = 0"
    by (simp_all add: example_unbuffered_def)
  have c: "closed (example_wrapped\<lparr> closed := True \<rparr>)" by simp
  have r1: "conduit_channel_try_send (example_wrapped\<lparr> closed := True \<rparr>) 9 =
     (example_wrapped\<lparr> closed := True \<rparr>, [Lean_dec 9], Return try_send_closed)"
    using try_send_tristate [of "example_wrapped\<lparr> closed := True \<rparr>" 9] c by blast
  have r2: "conduit_channel_try_send example_unbuffered 9 =
     (example_unbuffered, [Lean_dec 9], Return try_send_would_block)"
    using try_send_tristate [of example_unbuffered 9] u by blast
  have r3: "snd (snd (conduit_channel_try_send example_full 9)) = Return try_send_would_block"
    using try_send_tristate [of example_full 9] f by blast
  have r4: "conduit_channel_try_send example_wrapped 9 =
           (example_wrapped\<lparr> buffer := (buffer example_wrapped)[tail example_wrapped := Some 9],
                tail := (tail example_wrapped + 1) mod capacity example_wrapped,
                count := count example_wrapped + 1 \<rparr>, [Cond_signal not_empty], Return try_send_ok)"
    and r5: "queued (fst (conduit_channel_try_send example_wrapped 9)) =
      queued example_wrapped @ [Some 9]"
    using try_send_tristate [of example_wrapped 9] w(1-4) by blast+
  have r6: "snd (snd (conduit_channel_try_send example_wrapped 9)) = Return try_send_ok"
    by (subst r4) simp
  have r7: "queued (fst (conduit_channel_try_send example_wrapped 9)) = [Some 5, Some 7, Some 9]"
    by (simp only: r5 w(5) append.simps)
  from c r1 u r2 f r3 w(1-4) r6 r7 show ?thesis by blast
qed

subsection \<open>Non-blocking receive on a closed unbuffered channel\<close>

text \<open>
  Claim C10. On an unbuffered channel that is closed while a deposited value is still
  unclaimed (\<open>pending_ready\<close> true, \<open>pending_taken\<close> false), \<^verbatim>\<open>try_recv\<close> answers ok with
  the pending value and claims it. On an unbuffered channel it answers closed exactly
  when the channel is closed and there is no unclaimed pending value.
\<close>

theorem try_recv_closed_pending:
  "capacity ch = 0 \<Longrightarrow>
   (closed ch \<and> pending_ready ch \<and> \<not> pending_taken ch \<longrightarrow>
      conduit_channel_try_recv ch =
        (ch\<lparr> pending_taken := True, pending_ready := False \<rparr>, [Cond_signal not_full],
         Return (Try_ok (pending_value ch)))) \<and>
   (pending_ready ch \<and> \<not> pending_taken ch \<longrightarrow>
      snd (snd (conduit_channel_try_recv ch)) \<noteq> Return Try_closed) \<and>
   (snd (snd (conduit_channel_try_recv ch)) = Return Try_closed \<longleftrightarrow>
      closed ch \<and> \<not> (pending_ready ch \<and> \<not> pending_taken ch))"
  by (auto simp: conduit_channel_try_recv_def)

theorem try_recv_closed_pending_witness:
  "capacity example_closed_pending = 0 \<and> closed example_closed_pending \<and>
   pending_ready example_closed_pending \<and> \<not> pending_taken example_closed_pending \<and>
   pending_value example_closed_pending = Some 42 \<and>
   conduit_channel_try_recv example_closed_pending =
     (example_closed_pending\<lparr> pending_taken := True, pending_ready := False \<rparr>,
      [Cond_signal not_full], Return (Try_ok (Some 42))) \<and>
   snd (snd (conduit_channel_try_recv
     (example_closed_pending\<lparr> pending_taken := True, pending_ready := False \<rparr>))) =
     Return Try_closed"
proof -
  let ?ch' = "example_closed_pending\<lparr> pending_taken := True, pending_ready := False \<rparr>"
  have p: "capacity example_closed_pending = 0" "closed example_closed_pending"
    "pending_ready example_closed_pending" "\<not> pending_taken example_closed_pending"
    "pending_value example_closed_pending = Some 42"
    by (simp_all add: example_closed_pending_def conduit_channel_send_def
        send_unbuffered_wait_def conduit_channel_close_def example_unbuffered_def)
  have q: "capacity ?ch' = 0" "closed ?ch'" "\<not> (pending_ready ?ch' \<and> \<not> pending_taken ?ch')"
    using p by simp_all
  have r1: "conduit_channel_try_recv example_closed_pending =
     (?ch', [Cond_signal not_full], Return (Try_ok (pending_value example_closed_pending)))"
    using try_recv_closed_pending [OF p(1)] p(2-4) by blast
  have r2: "snd (snd (conduit_channel_try_recv ?ch')) = Return Try_closed"
    using try_recv_closed_pending [OF q(1)] q(2,3) by blast
  from p r1 r2 show ?thesis by (simp only: simp_thms)
qed

subsection \<open>Occupancy\<close>

lemma exec_op_capacity: "capacity (exec_op ch op) = capacity ch"
  by (cases op)
    (simp_all add: conduit_channel_send_def send_buffered_wait_def send_unbuffered_wait_def
      conduit_channel_recv_def conduit_channel_try_send_def conduit_channel_try_recv_def
      conduit_channel_close_def Let_def)

lemma exec_op_count:
  assumes "count ch \<le> capacity ch"
  shows "count (exec_op ch op) \<le> capacity (exec_op ch op)"
  using assms
  by (cases op)
    (auto simp: conduit_channel_send_def send_buffered_wait_def send_unbuffered_wait_def
      conduit_channel_recv_def conduit_channel_try_send_def conduit_channel_try_recv_def
      conduit_channel_close_def Let_def)

lemma foldl_exec_op_count:
  "count ch \<le> capacity ch \<Longrightarrow> count (foldl exec_op ch ops) \<le> capacity (foldl exec_op ch ops)"
  by (induction ops arbitrary: ch) (simp_all add: exec_op_count)

lemma new_buffered_count:
  "conduit_channel_new_buffered h c = Inr ch \<Longrightarrow> count ch = 0 \<and> capacity ch = c"
  by (auto simp: conduit_channel_new_buffered_def conduit_channel_new_def split: if_splits)

text \<open>
  Claim C7. \<open>count \<le> capacity\<close> holds for the channel a constructor returns
  (\<open>0 \<le> count\<close> holds of every natural number) and each operation preserves it: the
  calls of send, recv, try_send, try_recv and close, and the wake-up of a suspended
  sender, none of which changes the capacity. Hence after any sequence of operations
  on a constructed channel \<^verbatim>\<open>len\<close> is at most \<^verbatim>\<open>capacity\<close>.
\<close>

theorem count_within_capacity:
  "(conduit_channel_new h = Inr ch0 \<longrightarrow> count ch0 \<le> capacity ch0) \<and>
   (conduit_channel_new_buffered h c = Inr ch0 \<longrightarrow> count ch0 \<le> capacity ch0) \<and>
   (count ch \<le> capacity ch \<longrightarrow>
      count (fst (conduit_channel_send ch v)) \<le> capacity (fst (conduit_channel_send ch v)) \<and>
      count (fst (send_unbuffered_wait ch v)) \<le> capacity (fst (send_unbuffered_wait ch v)) \<and>
      count (fst (conduit_channel_recv ch)) \<le> capacity (fst (conduit_channel_recv ch)) \<and>
      count (fst (conduit_channel_try_send ch v)) \<le> capacity (fst (conduit_channel_try_send ch v)) \<and>
      count (fst (conduit_channel_try_recv ch)) \<le> capacity (fst (conduit_channel_try_recv ch)) \<and>
      count (fst (conduit_channel_close ch)) \<le> capacity (fst (conduit_channel_close ch))) \<and>
   (conduit_channel_new_buffered h c = Inr ch0 \<longrightarrow>
      conduit_channel_len (foldl exec_op ch0 ops) \<le>
        conduit_channel_capacity (foldl exec_op ch0 ops) \<and>
      conduit_channel_capacity (foldl exec_op ch0 ops) = c)"
proof -
  have init: "count ch0 \<le> capacity ch0" "capacity ch0 = c"
    if "conduit_channel_new_buffered h c = Inr ch0"
    using new_buffered_count [OF that] by simp_all
  have cap: "capacity (foldl exec_op ch0 ops) = capacity ch0"
    by (induction ops arbitrary: ch0) (simp_all add: exec_op_capacity)
  have run: "conduit_channel_len (foldl exec_op ch0 ops) \<le>
        conduit_channel_capacity (foldl exec_op ch0 ops) \<and>
      conduit_channel_capacity (foldl exec_op ch0 ops) = c"
    if "conduit_channel_new_buffered h c = Inr ch0"
    using init [OF that] cap foldl_exec_op_count [of ch0 ops]
    by (simp add: conduit_channel_len_def conduit_channel_capacity_def)
  have pres: "count (fst (conduit_channel_send ch v)) \<le> capacity (fst (conduit_channel_send ch v)) \<and>
      count (fst (send_unbuffered_wait ch v)) \<le> capacity (fst (send_unbuffered_wait ch v)) \<and>
      count (fst (conduit_channel_recv ch)) \<le> capacity (fst (conduit_channel_recv ch)) \<and>
      count (fst (conduit_channel_try_send ch v)) \<le> capacity (fst (conduit_channel_try_send ch v)) \<and>
      count (fst (conduit_channel_try_recv ch)) \<le> capacity (fst (conduit_channel_try_recv ch)) \<and>
      count (fst (conduit_channel_close ch)) \<le> capacity (fst (conduit_channel_close ch))"
    if "count ch \<le> capacity ch"
    using exec_op_count [OF that, of "Op_send v"] exec_op_count [OF that, of "Op_send_wake v"]
      exec_op_count [OF that, of Op_recv] exec_op_count [OF that, of "Op_try_send v"]
      exec_op_count [OF that, of Op_try_recv] exec_op_count [OF that, of Op_close]
    by simp
  have init0: "count ch0 \<le> capacity ch0" if "conduit_channel_new h = Inr ch0"
    using that by (auto simp: conduit_channel_new_def split: if_splits)
  from init0 init(1) run pres show ?thesis by blast
qed

theorem count_within_capacity_witness:
  "conduit_channel_new example_host = Inr example_unbuffered \<and>
   count example_unbuffered \<le> capacity example_unbuffered \<and>
   conduit_channel_new_buffered example_host 2 = Inr example_two \<and>
   count example_two \<le> capacity example_two \<and>
   count (fst (conduit_channel_try_send example_two 5)) = 1 \<and>
   count (fst (conduit_channel_try_send example_two 5)) \<le>
     capacity (fst (conduit_channel_try_send example_two 5)) \<and>
   conduit_channel_len
     (foldl exec_op example_two [Op_send 1, Op_send 2, Op_try_send 3, Op_recv, Op_close]) \<le>
   conduit_channel_capacity
     (foldl exec_op example_two [Op_send 1, Op_send 2, Op_try_send 3, Op_recv, Op_close]) \<and>
   conduit_channel_capacity
     (foldl exec_op example_two [Op_send 1, Op_send 2, Op_try_send 3, Op_recv, Op_close]) = 2"
proof -
  have new: "conduit_channel_new_buffered example_host 2 = Inr example_two"
    by (simp add: conduit_channel_new_buffered_def example_host_def example_two_def
        numeral_2_eq_2)
  have c0: "count example_two \<le> capacity example_two" by (simp add: example_two_def)
  have c1: "count (fst (conduit_channel_try_send example_two 5)) = 1"
    by (simp add: conduit_channel_try_send_def example_two_def)
  have new0: "conduit_channel_new example_host = Inr example_unbuffered"
    by (simp add: conduit_channel_new_def example_host_def example_unbuffered_def)
  from count_within_capacity [of example_host example_unbuffered 0 example_unbuffered 0] new0
  have u: "count example_unbuffered \<le> capacity example_unbuffered" by blast
  from count_within_capacity [of example_host example_two 2 example_two 5
      "[Op_send 1, Op_send 2, Op_try_send 3, Op_recv, Op_close]"] new c0 c1 new0 u
  show ?thesis by blast
qed

subsection \<open>Polling\<close>

lemma case_ready_spec:
  "chan_inv ch \<Longrightarrow> case_ready ch is_send = spec_ready (ch, is_send)"
  by (auto simp: case_ready_def spec_ready_def chan_inv_def split: if_splits)

lemma select_poll_from_Some:
  "select_poll_from k cs = Some i \<longleftrightarrow>
     k \<le> i \<and> i - k < length cs \<and> case_ready (fst (cs ! (i - k))) (snd (cs ! (i - k))) \<and>
     (\<forall>j < i - k. \<not> case_ready (fst (cs ! j)) (snd (cs ! j)))"
proof (induction cs arbitrary: k)
  case Nil
  then show ?case by simp
next
  case (Cons c cs)
  obtain ch is_send where c: "c = (ch, is_send)" by (cases c)
  show ?case
  proof (cases "case_ready ch is_send")
    case True
    have "\<not> (\<forall>j < i - k. \<not> case_ready (fst ((c # cs) ! j)) (snd ((c # cs) ! j)))"
      if "k < i"
    proof -
      from that have "0 < i - k" by simp
      moreover have "case_ready (fst ((c # cs) ! 0)) (snd ((c # cs) ! 0))"
        using True by (simp add: c)
      ultimately show ?thesis by blast
    qed
    moreover have "select_poll_from k (c # cs) = Some k" using True by (simp add: c)
    moreover have "case_ready (fst ((c # cs) ! 0)) (snd ((c # cs) ! 0))"
      using True by (simp add: c)
    ultimately show ?thesis by (cases "i = k") auto
  next
    case False
    have "select_poll_from k (c # cs) = Some i \<longleftrightarrow> select_poll_from (k + 1) cs = Some i"
      using False by (simp add: c)
    also have "\<dots> \<longleftrightarrow> k + 1 \<le> i \<and> i - (k + 1) < length cs \<and>
        case_ready (fst (cs ! (i - (k + 1)))) (snd (cs ! (i - (k + 1)))) \<and>
        (\<forall>j < i - (k + 1). \<not> case_ready (fst (cs ! j)) (snd (cs ! j)))"
      by (rule Cons.IH)
    also have "\<dots> \<longleftrightarrow> k \<le> i \<and> i - k < length (c # cs) \<and>
        case_ready (fst ((c # cs) ! (i - k))) (snd ((c # cs) ! (i - k))) \<and>
        (\<forall>j < i - k. \<not> case_ready (fst ((c # cs) ! j)) (snd ((c # cs) ! j)))"
    proof (cases "k < i")
      case True
      then obtain d where d: "i - k = Suc d" "i - (k + 1) = d"
        by (cases "i - k") auto
      show ?thesis
        using True False d by (auto simp: c less_Suc_eq_0_disj)
    next
      case False
      with \<open>\<not> case_ready ch is_send\<close> show ?thesis by (auto simp: c)
    qed
    finally show ?thesis .
  qed
qed

lemma select_poll_from_None:
  "select_poll_from k cs = None \<longleftrightarrow>
     (\<forall>j < length cs. \<not> case_ready (fst (cs ! j)) (snd (cs ! j)))"
proof (induction cs arbitrary: k)
  case Nil
  then show ?case by simp
next
  case (Cons c cs)
  obtain ch is_send where c: "c = (ch, is_send)" by (cases c)
  show ?case
    using Cons.IH [of "k + 1"] by (auto simp: c less_Suc_eq_0_disj)
qed

text \<open>
  Claim C4. On a list of well-formed channels, \<^verbatim>\<open>select_poll\<close> returns index \<open>i\<close>
  exactly when pair \<open>i\<close> is ready and no pair before it is, with readiness as the
  specification words it (\<open>spec_ready\<close>); it returns absent exactly when no pair is
  ready. The result is a function of the list alone, so the tie-break is deterministic.
\<close>

theorem select_poll_first_ready:
  assumes "\<forall>c \<in> set cases_obj. chan_inv (fst c)"
  shows "(conduit_select_poll cases_obj = Some i \<longleftrightarrow>
            i < length cases_obj \<and> spec_ready (cases_obj ! i) \<and>
            (\<forall>j < i. \<not> spec_ready (cases_obj ! j))) \<and>
         (conduit_select_poll cases_obj = None \<longleftrightarrow>
            (\<forall>j < length cases_obj. \<not> spec_ready (cases_obj ! j)))"
proof -
  have ready: "case_ready (fst (cases_obj ! j)) (snd (cases_obj ! j)) = spec_ready (cases_obj ! j)"
    if "j < length cases_obj" for j
  proof -
    from that assms have "chan_inv (fst (cases_obj ! j))" by simp
    then show ?thesis using case_ready_spec [of "fst (cases_obj ! j)" "snd (cases_obj ! j)"] by simp
  qed
  have "conduit_select_poll cases_obj = Some i \<longleftrightarrow>
            i < length cases_obj \<and> spec_ready (cases_obj ! i) \<and>
            (\<forall>j < i. \<not> spec_ready (cases_obj ! j))"
    unfolding conduit_select_poll_def select_poll_from_Some
    using ready by auto
  moreover have "conduit_select_poll cases_obj = None \<longleftrightarrow>
            (\<forall>j < length cases_obj. \<not> spec_ready (cases_obj ! j))"
    unfolding conduit_select_poll_def select_poll_from_None
    using ready by auto
  ultimately show ?thesis by simp
qed

theorem select_poll_first_ready_witness:
  "chan_inv example_fresh \<and> chan_inv example_wrapped \<and> chan_inv example_full \<and>
   conduit_select_poll [(example_fresh, False), (example_wrapped, False), (example_full, False)]
     = Some 1 \<and>
   \<not> spec_ready (example_fresh, False) \<and> spec_ready (example_wrapped, False) \<and>
   spec_ready (example_full, False) \<and>
   conduit_select_poll [(example_fresh, False), (example_full, True)] = None"
proof -
  let ?cs = "[(example_fresh, False), (example_wrapped, False), (example_full, False)]"
  have inv: "chan_inv example_fresh" "chan_inv example_wrapped" "chan_inv example_full"
    by (simp_all add: chan_inv_def example_fresh_def example_wrapped_def example_full_def)
  have r: "\<not> spec_ready (example_fresh, False)" "spec_ready (example_wrapped, False)"
    "spec_ready (example_full, False)" "\<not> spec_ready (example_full, True)"
    by (simp_all add: spec_ready_def example_fresh_def example_wrapped_def example_full_def)
  have a1: "\<forall>c \<in> set ?cs. chan_inv (fst c)" using inv by simp
  have a2: "\<forall>c \<in> set [(example_fresh, False), (example_full, True)]. chan_inv (fst c)"
    using inv by simp
  have "conduit_select_poll ?cs = Some 1"
    using select_poll_first_ready [OF a1, of 1] r by (simp add: less_Suc_eq_0_disj)
  moreover have "conduit_select_poll [(example_fresh, False), (example_full, True)] = None"
    using select_poll_first_ready [OF a2, of 0] r by (simp add: less_Suc_eq_0_disj)
  ultimately show ?thesis using inv r by blast
qed

subsection \<open>Waiting for a ready case\<close>

lemma all_closed_scan_iff: "all_closed_scan cs \<longleftrightarrow> (\<forall>c \<in> set cs. closed (fst c))"
  by (induction cs rule: all_closed_scan.induct) simp_all

lemma quiet_round_scan:
  "quiet_round world k \<longleftrightarrow>
     conduit_select_poll (fst (world k)) = None \<and> \<not> all_closed_scan (snd (world k))"
  by (simp add: quiet_round_def all_closed_scan_iff)

lemma select_wait_loop_sleeps:
  assumes quiet: "\<forall>k. e \<le> k \<and> k < n \<longrightarrow> quiet_round world k"
    and "e \<le> n" and "timeout_ms = 0 \<or> n \<le> timeout_ms"
  shows "select_wait_loop world timeout_ms e = select_wait_loop world timeout_ms n"
  using assms
proof (induction "n - e" arbitrary: e)
  case 0
  then show ?case by simp
next
  case (Suc d)
  then have lt: "e < n" by simp
  with Suc.prems have q: "quiet_round world e" by simp
  have enter: "timeout_ms = 0 \<or> e < timeout_ms" using lt Suc.prems(3) by auto
  have "select_wait_loop world timeout_ms e = select_wait_loop world timeout_ms (e + 1)"
    using q enter by (subst select_wait_loop.simps) (simp add: quiet_round_scan)
  also have "\<dots> = select_wait_loop world timeout_ms n"
    using Suc.hyps(2) Suc.prems lt by (intro Suc.hyps(1)) auto
  finally show ?case .
qed

lemma select_wait_loop_diverges:
  assumes quiet: "\<forall>k. quiet_round world k"
  shows "select_wait_loop world 0 e = None"
proof (rule ccontr)
  assume "select_wait_loop world 0 e \<noteq> None"
  then obtain y where y: "select_wait_loop world 0 e = Some y" by auto
  have "world = world \<longrightarrow> (0::nat) = 0 \<longrightarrow> False"
  proof (rule select_wait_loop.raw_induct
      [where P = "\<lambda>w t e y. w = world \<longrightarrow> t = 0 \<longrightarrow> False", OF _ y])
    fix loop :: "'a world \<Rightarrow> nat \<Rightarrow> nat \<Rightarrow> (nat option \<times> nat) option"
    fix w :: "'a world" and t k :: nat and r :: "nat option \<times> nat"
    assume IH: "\<And>w t k r. loop w t k = Some r \<Longrightarrow> w = world \<longrightarrow> t = 0 \<longrightarrow> False"
    assume body: "(if t = 0 \<or> k < t
      then case conduit_select_poll (fst (w k)) of
           None \<Rightarrow>
             if all_closed_scan (snd (w k)) then Some (None, k) else loop w t (k + 1)
           | Some i \<Rightarrow> Some (Some i, k)
      else Some (None, k)) = Some r"
    show "w = world \<longrightarrow> t = 0 \<longrightarrow> False"
    proof (intro impI)
      assume w: "w = world" and t: "t = 0"
      from quiet w have "quiet_round w k" by simp
      with body t have "loop w t (k + 1) = Some r" by (simp add: quiet_round_scan)
      with IH w t show False by blast
    qed
  qed
  then show False by simp
qed

text \<open>
  Claim C8. Whatever the timeout, a call of \<^verbatim>\<open>select_wait\<close> that finds a pair ready
  returns at once the index \<^verbatim>\<open>select_poll\<close> returns, and a call that finds no pair ready
  and every monitored channel closed returns absent at once, without sleeping. Otherwise
  it sleeps one millisecond per round for as long as the rounds are quiet: no pair is
  ready and some monitored channel is open. The first round that is not quiet, reached
  before the timeout, returns in the same two ways after the sleeps so far and no more.
  With \<open>timeout_ms > 0\<close> and every round before \<open>timeout_ms\<close> quiet, the call returns
  absent when the elapsed time is \<open>timeout_ms\<close>, and not earlier. With
  \<open>timeout_ms = 0\<close> the number of rounds is not bounded, and the call never returns
  when every round is quiet.
\<close>

theorem select_wait_contract:
  "(conduit_select_poll (fst (world 0)) = Some i \<longrightarrow>
      conduit_select_wait world timeout_ms = Some (Some i, 0)) \<and>
   (conduit_select_poll (fst (world 0)) = None \<and>
    (\<forall>c \<in> set (snd (world 0)). closed (fst c)) \<longrightarrow>
      conduit_select_wait world timeout_ms = Some (None, 0)) \<and>
   ((\<forall>k < n. quiet_round world k) \<and> (timeout_ms = 0 \<or> n < timeout_ms) \<longrightarrow>
      (conduit_select_poll (fst (world n)) = Some i \<longrightarrow>
         conduit_select_wait world timeout_ms = Some (Some i, n)) \<and>
      (conduit_select_poll (fst (world n)) = None \<and>
       (\<forall>c \<in> set (snd (world n)). closed (fst c)) \<longrightarrow>
         conduit_select_wait world timeout_ms = Some (None, n))) \<and>
   (0 < timeout_ms \<and> (\<forall>k < timeout_ms. quiet_round world k) \<longrightarrow>
      conduit_select_wait world timeout_ms = Some (None, timeout_ms)) \<and>
   ((\<forall>k. quiet_round world k) \<longrightarrow> conduit_select_wait world 0 = None)"
proof -
  have skip: "conduit_select_wait world timeout_ms = select_wait_loop world timeout_ms m"
    if "\<forall>k < m. quiet_round world k" "timeout_ms = 0 \<or> m \<le> timeout_ms" for m
    unfolding conduit_select_wait_def
    using that by (intro select_wait_loop_sleeps) auto
  have ready: "conduit_select_wait world timeout_ms = Some (Some i, m)"
    if "\<forall>k < m. quiet_round world k" "timeout_ms = 0 \<or> m < timeout_ms"
      "conduit_select_poll (fst (world m)) = Some i" for m
  proof -
    have "conduit_select_wait world timeout_ms = select_wait_loop world timeout_ms m"
      using that by (intro skip) auto
    also have "\<dots> = Some (Some i, m)"
      using that by (subst select_wait_loop.simps) simp
    finally show ?thesis .
  qed
  have all_closed: "conduit_select_wait world timeout_ms = Some (None, m)"
    if "\<forall>k < m. quiet_round world k" "timeout_ms = 0 \<or> m < timeout_ms"
      "conduit_select_poll (fst (world m)) = None" "\<forall>c \<in> set (snd (world m)). closed (fst c)"
    for m
  proof -
    have "conduit_select_wait world timeout_ms = select_wait_loop world timeout_ms m"
      using that by (intro skip) auto
    also have "\<dots> = Some (None, m)"
      using that by (subst select_wait_loop.simps) (simp add: all_closed_scan_iff)
    finally show ?thesis .
  qed
  have first: "timeout_ms = 0 \<or> 0 < timeout_ms" by auto
  have ready0: "conduit_select_wait world timeout_ms = Some (Some i, 0)"
    if "conduit_select_poll (fst (world 0)) = Some i"
    using ready [of 0] first that by simp
  have all_closed0: "conduit_select_wait world timeout_ms = Some (None, 0)"
    if "conduit_select_poll (fst (world 0)) = None" "\<forall>c \<in> set (snd (world 0)). closed (fst c)"
    using all_closed [of 0] first that by simp
  have timeout: "conduit_select_wait world timeout_ms = Some (None, timeout_ms)"
    if "0 < timeout_ms" "\<forall>k < timeout_ms. quiet_round world k"
  proof -
    have "conduit_select_wait world timeout_ms = select_wait_loop world timeout_ms timeout_ms"
      using that by (intro skip) auto
    also have "\<dots> = Some (None, timeout_ms)"
      using that by (subst select_wait_loop.simps) simp
    finally show ?thesis .
  qed
  have forever: "conduit_select_wait world 0 = None" if "\<forall>k. quiet_round world k"
    unfolding conduit_select_wait_def using that by (rule select_wait_loop_diverges)
  from ready0 all_closed0 ready [of n] all_closed [of n] timeout forever show ?thesis by blast
qed

theorem select_wait_contract_witness:
  "conduit_select_poll (fst (example_ready_world 0)) = Some 1 \<and>
   conduit_select_wait example_ready_world 1 = Some (Some 1, 0) \<and>
   conduit_select_wait example_ready_world 0 = Some (Some 1, 0) \<and>
   conduit_select_poll (fst (example_closed_world 0)) = None \<and>
   all_closed_scan (snd (example_closed_world 0)) \<and>
   conduit_select_wait example_closed_world 7 = Some (None, 0) \<and>
   quiet_round example_world 0 \<and> quiet_round example_world 1 \<and>
   conduit_select_poll (fst (example_world 2)) = Some 1 \<and>
   conduit_select_wait example_world 0 = Some (Some 1, 2) \<and>
   conduit_select_wait example_world 5 = Some (Some 1, 2) \<and>
   (\<forall>k. quiet_round example_mixed_world k) \<and>
   conduit_select_wait example_mixed_world 7 = Some (None, 7) \<and>
   conduit_select_wait example_mixed_world 0 = None"
proof -
  have p0: "conduit_select_poll (fst (example_ready_world 0)) = Some 1"
    by (simp add: example_ready_world_def conduit_select_poll_def case_ready_def
        example_fresh_def example_wrapped_def)
  have r0: "conduit_select_wait example_ready_world 1 = Some (Some 1, 0)"
    using select_wait_contract [of example_ready_world 1 1 0] p0 by blast
  have r0': "conduit_select_wait example_ready_world 0 = Some (Some 1, 0)"
    using select_wait_contract [of example_ready_world 1 0 0] p0 by blast
  have c: "conduit_select_poll (fst (example_closed_world 0)) = None"
    "\<forall>c \<in> set (snd (example_closed_world 0)). closed (fst c)"
    by (simp_all add: example_closed_world_def conduit_select_poll_def case_ready_def)
  have c': "all_closed_scan (snd (example_closed_world 0))"
    by (simp add: example_closed_world_def)
  have r1: "conduit_select_wait example_closed_world 7 = Some (None, 0)"
    using select_wait_contract [of example_closed_world 0 7 0] c by blast
  have q: "quiet_round example_world 0" "quiet_round example_world 1"
    by (simp_all add: quiet_round_def example_world_def conduit_select_poll_def case_ready_def
        example_fresh_def example_two_def)
  then have q2: "\<forall>k < 2. quiet_round example_world k"
    by (simp add: numeral_2_eq_2 less_Suc_eq)
  have p: "conduit_select_poll (fst (example_world 2)) = Some 1"
    by (simp add: example_world_def conduit_select_poll_def case_ready_def
        example_fresh_def example_two_def conduit_channel_send_def send_buffered_wait_def)
  have r2: "conduit_select_wait example_world 0 = Some (Some 1, 2)"
    using select_wait_contract [of example_world 1 0 2] q2 p by simp
  have r3: "conduit_select_wait example_world 5 = Some (Some 1, 2)"
    using select_wait_contract [of example_world 1 5 2] q2 p by simp
  have qq: "\<forall>k. quiet_round example_mixed_world k"
    by (simp add: quiet_round_def example_mixed_world_def conduit_select_poll_def case_ready_def
        example_full_def)
  have r4: "conduit_select_wait example_mixed_world 7 = Some (None, 7)"
    using select_wait_contract [of example_mixed_world 0 7 0] qq by simp
  have r5: "conduit_select_wait example_mixed_world 0 = None"
    using select_wait_contract [of example_mixed_world 0 0 0] qq by simp
  from p0 r0 r0' c(1) c' r1 q p r2 r3 qq r4 r5 show ?thesis by blast
qed

subsection \<open>Handoff on an unbuffered channel\<close>

lemma handoff_inv_init:
  "conduit_channel_new h = Inr ch \<Longrightarrow> handoff_inv (sys_init ch)"
  by (auto simp: conduit_channel_new_def sys_init_def handoff_inv_def split: if_splits)

lemma handoff_inv_send:
  assumes "handoff_inv s" "sys_exec s (Op_send v) = Some s'"
  shows "handoff_inv s'"
proof -
  from assms(2) have fresh: "v \<notin> set (deposited s)" by (simp split: if_splits)
  from assms(1) have cap: "capacity (chan s) = 0" by (simp add: handoff_inv_def)
  show ?thesis
  proof (cases "closed (chan s)")
    case True
    with assms fresh show ?thesis
      by (auto simp: conduit_channel_send_def observe_def handoff_inv_def)
  next
    case False
    with assms(2) fresh cap have s': "s' = s\<lparr> chan := (chan s)\<lparr> pending_value := Some v,
          pending_ready := True, pending_taken := False \<rparr>,
        takes := takes s, waiting := v # waiting s, deposited := deposited s @ [v] \<rparr>"
      by (simp add: conduit_channel_send_def send_unbuffered_wait_def observe_def)
    have "Some v \<notin> set (delivered s)" using assms(1) fresh by (auto simp: handoff_inv_def)
    with assms(1) show ?thesis unfolding s' by (auto simp: handoff_inv_def)
  qed
qed

lemma handoff_inv_send_wake:
  assumes "handoff_inv s" "sys_exec s (Op_send_wake v) = Some s'"
  shows "handoff_inv s'"
  using assms
  by (auto simp: send_unbuffered_wait_def observe_def handoff_inv_def Let_def split: if_splits)

lemma handoff_inv_recv:
  assumes "handoff_inv s" "sys_exec s Op_recv = Some s'"
  shows "handoff_inv s'"
  using assms
  by (auto simp: conduit_channel_recv_def observe_def handoff_inv_def split: if_splits)

lemma handoff_inv_try_recv:
  assumes "handoff_inv s" "sys_exec s Op_try_recv = Some s'"
  shows "handoff_inv s'"
  using assms
  by (auto simp: conduit_channel_try_recv_def observe_def handoff_inv_def split: if_splits)

lemma handoff_inv_try_send:
  assumes "handoff_inv s" "sys_exec s (Op_try_send v) = Some s'"
  shows "handoff_inv s'"
  using assms
  by (auto simp: conduit_channel_try_send_def observe_def handoff_inv_def split: if_splits)

lemma handoff_inv_close:
  assumes "handoff_inv s" "sys_exec s Op_close = Some s'"
  shows "handoff_inv s'"
  using assms
  by (auto simp: conduit_channel_close_def observe_def handoff_inv_def split: if_splits)

lemma handoff_inv_exec:
  assumes "handoff_inv s" "sys_exec s e = Some s'"
  shows "handoff_inv s'"
  using assms
  by (cases e)
    (blast intro: handoff_inv_send handoff_inv_send_wake handoff_inv_recv handoff_inv_try_recv
      handoff_inv_try_send handoff_inv_close)+

lemma handoff_inv_run:
  "handoff_inv s \<Longrightarrow> sys_run s es = Some s' \<Longrightarrow> handoff_inv s'"
proof (induction es arbitrary: s)
  case Nil
  then show ?case by simp
next
  case (Cons e es)
  then show ?case by (auto split: option.splits dest: handoff_inv_exec)
qed

lemma solo_inv_init:
  "conduit_channel_new h = Inr ch \<Longrightarrow> solo_inv (sys_init ch)"
  by (auto simp: conduit_channel_new_def sys_init_def solo_inv_def split: if_splits)

lemma solo_inv_send:
  assumes "solo_inv s" "waiting s = []" "sys_exec s (Op_send v) = Some s'"
  shows "solo_inv s'"
proof -
  from assms(1) have cap: "capacity (chan s) = 0" by (simp add: solo_inv_def)
  from assms(3) have fresh: "v \<notin> set (deposited s)" by (simp split: if_splits)
  show ?thesis
  proof (cases "closed (chan s)")
    case True
    with assms fresh show ?thesis
      by (auto simp: conduit_channel_send_def observe_def solo_inv_def)
  next
    case False
    with assms fresh cap show ?thesis
      by (auto simp: conduit_channel_send_def send_unbuffered_wait_def observe_def solo_inv_def)
  qed
qed

lemma solo_inv_send_wake:
  assumes "solo_inv s" "sys_exec s (Op_send_wake v) = Some s'"
  shows "solo_inv s'"
proof -
  from assms(2) have v: "v \<in> set (waiting s)" by (simp split: if_splits)
  with assms(1) have w: "waiting s = [v]"
    by (cases "waiting s" rule: list.exhaust; cases "tl (waiting s)")
      (auto simp: solo_inv_def split: list.splits)
  from assms w show ?thesis
    by (auto simp: send_unbuffered_wait_def observe_def solo_inv_def Let_def split: if_splits)
qed

lemma solo_inv_recv:
  assumes "solo_inv s" "sys_exec s Op_recv = Some s'"
  shows "solo_inv s'"
  using assms
  by (auto simp: conduit_channel_recv_def observe_def solo_inv_def
      split: if_splits list.splits)

lemma solo_inv_try_recv:
  assumes "solo_inv s" "sys_exec s Op_try_recv = Some s'"
  shows "solo_inv s'"
  using assms
  by (auto simp: conduit_channel_try_recv_def observe_def solo_inv_def
      split: if_splits list.splits)

lemma solo_inv_try_send:
  assumes "solo_inv s" "sys_exec s (Op_try_send v) = Some s'"
  shows "solo_inv s'"
  using assms
  by (auto simp: conduit_channel_try_send_def observe_def solo_inv_def
      split: if_splits list.splits)

lemma solo_inv_close:
  assumes "solo_inv s" "sys_exec s Op_close = Some s'"
  shows "solo_inv s'"
  using assms
  by (auto simp: conduit_channel_close_def observe_def solo_inv_def
      split: if_splits list.splits)

lemma solo_inv_run:
  "solo_inv s \<Longrightarrow> overlap_free s es \<Longrightarrow> sys_run s es = Some s' \<Longrightarrow> solo_inv s'"
proof (induction es arbitrary: s)
  case Nil
  then show ?case by simp
next
  case (Cons e es)
  from Cons.prems(3) obtain s1 where e: "sys_exec s e = Some s1" and r: "sys_run s1 es = Some s'"
    by (auto split: option.splits)
  from Cons.prems(2) e have free: "overlap_free s1 es" by simp
  have "solo_inv s1"
  proof (cases e)
    case (Op_send v)
    with Cons.prems(2) have "waiting s = []" by simp
    with Cons.prems(1) e Op_send show ?thesis by (blast intro: solo_inv_send)
  next
    case (Op_send_wake v)
    with Cons.prems(1) e show ?thesis by (blast intro: solo_inv_send_wake)
  next
    case Op_recv
    with Cons.prems(1) e show ?thesis by (blast intro: solo_inv_recv)
  next
    case (Op_try_send v)
    with Cons.prems(1) e show ?thesis by (blast intro: solo_inv_try_send)
  next
    case Op_try_recv
    with Cons.prems(1) e show ?thesis by (blast intro: solo_inv_try_recv)
  next
    case Op_close
    with Cons.prems(1) e show ?thesis by (blast intro: solo_inv_close)
  qed
  then show ?case using free r by (rule Cons.IH)
qed

lemma distinct_count_le: "distinct xs \<Longrightarrow> count_list xs x \<le> 1"
  by (induction xs) (auto simp: count_list_0_iff)

lemma distinct_count_one: "distinct xs \<Longrightarrow> x \<in> set xs \<Longrightarrow> count_list xs x = 1"
  by (induction xs) (auto simp: count_list_0_iff)

text \<open>
  Claim C9, as amended. On an unbuffered channel made by the constructor, after any
  interleaving of calls of send, recv, try_send, try_recv and close and of wake-ups of
  suspended senders, every pointer has been returned by at most one receive (blocking
  or not), every pointer returned is a value some send deposited, and \<open>pending_taken\<close>
  went from false to true once for each value returned. If moreover no send was called
  while another sender was suspended, every value whose send returned true has been
  returned by exactly one receive.
\<close>

theorem handoff_delivery:
  assumes "conduit_channel_new h = Inr ch" and "sys_run (sys_init ch) es = Some s"
  shows "(\<forall>p. count_list (delivered s) p \<le> 1) \<and>
         set (delivered s) \<subseteq> Some ` set (deposited s) \<and>
         takes s = length (delivered s) \<and>
         (overlap_free (sys_init ch) es \<longrightarrow>
            (\<forall>v \<in> set (succeeded s). count_list (delivered s) (Some v) = 1))"
proof -
  have "handoff_inv (sys_init ch)" using assms(1) by (rule handoff_inv_init)
  then have inv: "handoff_inv s" using assms(2) by (rule handoff_inv_run)
  then have d: "distinct (delivered s)" by (simp add: handoff_inv_def)
  have once: "count_list (delivered s) (Some v) = 1"
    if "overlap_free (sys_init ch) es" "v \<in> set (succeeded s)" for v
  proof -
    have "solo_inv (sys_init ch)" using assms(1) by (rule solo_inv_init)
    then have "solo_inv s" using that(1) assms(2) by (rule solo_inv_run)
    with that(2) have "Some v \<in> set (delivered s)" by (auto simp: solo_inv_def)
    with d show ?thesis by (rule distinct_count_one)
  qed
  have atmost: "\<forall>p. count_list (delivered s) p \<le> 1"
    using distinct_count_le [OF d] by blast
  from inv have "set (delivered s) \<subseteq> Some ` set (deposited s)"
    and "takes s = length (delivered s)"
    by (simp_all add: handoff_inv_def)
  with atmost once show ?thesis by blast
qed

theorem handoff_delivery_witness:
  "conduit_channel_new example_host = Inr example_unbuffered \<and>
   sys_run (sys_init example_unbuffered)
     [Op_send 1, Op_recv, Op_send_wake 1, Op_try_recv, Op_send 2, Op_try_recv, Op_recv] =
     Some example_handoffs \<and>
   overlap_free (sys_init example_unbuffered)
     [Op_send 1, Op_recv, Op_send_wake 1, Op_try_recv, Op_send 2, Op_try_recv, Op_recv] \<and>
   delivered example_handoffs = [Some 1, Some 2] \<and>
   deposited example_handoffs = [1, 2] \<and>
   succeeded example_handoffs = [1] \<and>
   count_list (delivered example_handoffs) (Some 1) = 1 \<and>
   count_list (delivered example_handoffs) (Some 2) \<le> 1 \<and>
   takes example_handoffs = 2"
proof -
  have new: "conduit_channel_new example_host = Inr example_unbuffered"
    by (simp add: conduit_channel_new_def example_host_def example_unbuffered_def)
  have run: "sys_run (sys_init example_unbuffered)
     [Op_send 1, Op_recv, Op_send_wake 1, Op_try_recv, Op_send 2, Op_try_recv, Op_recv] =
     Some example_handoffs"
    by (simp add: example_handoffs_def sys_init_def example_unbuffered_def observe_def
        conduit_channel_send_def send_unbuffered_wait_def conduit_channel_recv_def
        conduit_channel_try_recv_def)
  have free: "overlap_free (sys_init example_unbuffered)
     [Op_send 1, Op_recv, Op_send_wake 1, Op_try_recv, Op_send 2, Op_try_recv, Op_recv]"
    by (simp add: sys_init_def example_unbuffered_def observe_def
        conduit_channel_send_def send_unbuffered_wait_def conduit_channel_recv_def
        conduit_channel_try_recv_def)
  have d: "delivered example_handoffs = [Some 1, Some 2]" "deposited example_handoffs = [1, 2]"
    "succeeded example_handoffs = [1]" "takes example_handoffs = 2"
    by (simp_all add: example_handoffs_def)
  have m: "1 \<in> set (succeeded example_handoffs)" by (simp add: d)
  from handoff_delivery [OF new run] free m
  have "count_list (delivered example_handoffs) (Some 1) = 1"
    and "count_list (delivered example_handoffs) (Some 2) \<le> 1"
    by blast+
  with new run free d show ?thesis by blast
qed

text \<open>
  The claim as first stated asks for exactly one receive of every deposited value. A
  sender deposits 42 and suspends; the channel is closed; the sender wakes, releases 42
  and returns false. The receives that follow return absent and closed: 42 was
  deposited and no receive observes it.
\<close>

theorem deposit_unobserved_counterexample:
  "conduit_channel_new example_host = Inr example_unbuffered \<and>
   conduit_channel_send example_unbuffered 42 =
     (example_unbuffered\<lparr> pending_value := Some 42, pending_ready := True \<rparr>,
      [Cond_signal not_empty], Cond_wait not_full) \<and>
   send_unbuffered_wait
     (example_unbuffered\<lparr> pending_value := Some 42, pending_ready := True, closed := True \<rparr>) 42 =
     (example_unbuffered\<lparr> closed := True \<rparr>, [Lean_dec 42], Return False) \<and>
   conduit_channel_recv (example_unbuffered\<lparr> closed := True \<rparr>) =
     (example_unbuffered\<lparr> closed := True \<rparr>, [], Return None) \<and>
   sys_run (sys_init example_unbuffered)
     [Op_send 42, Op_close, Op_send_wake 42, Op_recv, Op_try_recv] =
     Some \<lparr> chan = example_unbuffered\<lparr> closed := True \<rparr>, waiting = [], deposited = [42],
            succeeded = [], delivered = [], takes = 0 \<rparr> \<and>
   count_list [] (Some (42 :: nat)) = 0"
  by (simp add: conduit_channel_new_def example_host_def sys_init_def example_unbuffered_def
      observe_def conduit_channel_send_def send_unbuffered_wait_def conduit_channel_recv_def
      conduit_channel_try_recv_def conduit_channel_close_def)

text \<open>
  Once an unbuffered channel is closed with nothing pending, no later step hands out a
  value: the deposit of the run above stays unobserved.
\<close>

lemma closed_drained_exec:
  assumes "capacity (chan s) = 0" "closed (chan s)" "\<not> pending_ready (chan s)"
    and "sys_exec s e = Some s'"
  shows "capacity (chan s') = 0 \<and> closed (chan s') \<and> \<not> pending_ready (chan s') \<and>
         delivered s' = delivered s"
  using assms
  by (cases e)
    (auto simp: conduit_channel_send_def send_unbuffered_wait_def conduit_channel_recv_def
      conduit_channel_try_send_def conduit_channel_try_recv_def conduit_channel_close_def
      observe_def Let_def split: if_splits)

lemma closed_drained_run:
  assumes "capacity (chan s) = 0" "closed (chan s)" "\<not> pending_ready (chan s)"
    and "sys_run s es = Some s'"
  shows "delivered s' = delivered s"
  using assms
proof (induction es arbitrary: s)
  case Nil
  then show ?case by simp
next
  case (Cons e es)
  from Cons.prems(4) obtain s1 where e: "sys_exec s e = Some s1" and r: "sys_run s1 es = Some s'"
    by (auto split: option.splits)
  from closed_drained_exec [OF Cons.prems(1-3) e] Cons.IH [OF _ _ _ r]
  show ?case by simp
qed

subsection \<open>Overlapping senders\<close>

text \<open>
  The unbuffered send writes the pending slot without looking whether another sender's
  value is in it (lines 233 to 235), and all suspended senders read the one flag
  \<open>pending_taken\<close> (line 245). With two senders suspended at once the second deposit
  replaces the first. In the run below the receiver takes 2, and the sender of 1 wakes
  first, finds \<open>pending_taken\<close> set and returns true, although 1 was not handed out;
  the sender of 2 stays suspended. The run is not overlap-free.
\<close>

lemma concurrent_senders_overwrite:
  "sys_run (sys_init example_unbuffered) [Op_send 1, Op_send 2, Op_recv, Op_send_wake 1] =
     Some example_overwritten \<and>
   \<not> overlap_free (sys_init example_unbuffered) [Op_send 1, Op_send 2, Op_recv, Op_send_wake 1] \<and>
   send_unbuffered_wait (example_unbuffered\<lparr> pending_value := Some 2, pending_taken := True \<rparr>) 1
     = (example_unbuffered, [], Return True) \<and>
   succeeded example_overwritten = [1] \<and> delivered example_overwritten = [Some 2]"
  by (simp add: sys_init_def example_unbuffered_def example_overwritten_def observe_def
      conduit_channel_send_def send_unbuffered_wait_def conduit_channel_recv_def)

text \<open>
  A deposited value that is neither handed out nor in an unclaimed pending slot is
  never handed out later: no step puts it back into the slot.
\<close>

lemma replaced_value_exec:
  assumes "capacity (chan s) = 0" "v \<in> set (deposited s)" "Some v \<notin> set (delivered s)"
    and "\<not> (pending_ready (chan s) \<and> \<not> pending_taken (chan s) \<and> pending_value (chan s) = Some v)"
    and "sys_exec s e = Some s'"
  shows "capacity (chan s') = 0 \<and> v \<in> set (deposited s') \<and> Some v \<notin> set (delivered s') \<and>
    \<not> (pending_ready (chan s') \<and> \<not> pending_taken (chan s') \<and> pending_value (chan s') = Some v)"
  using assms
  by (cases e)
    (auto simp: conduit_channel_send_def send_unbuffered_wait_def conduit_channel_recv_def
      conduit_channel_try_send_def conduit_channel_try_recv_def conduit_channel_close_def
      observe_def Let_def split: if_splits)

lemma replaced_value_run:
  assumes "capacity (chan s) = 0" "v \<in> set (deposited s)" "Some v \<notin> set (delivered s)"
    and "\<not> (pending_ready (chan s) \<and> \<not> pending_taken (chan s) \<and> pending_value (chan s) = Some v)"
    and "sys_run s es = Some s'"
  shows "Some v \<notin> set (delivered s')"
  using assms
proof (induction es arbitrary: s)
  case Nil
  then show ?case by simp
next
  case (Cons e es)
  from Cons.prems(5) obtain s1 where e: "sys_exec s e = Some s1" and r: "sys_run s1 es = Some s'"
    by (auto split: option.splits)
  from replaced_value_exec [OF Cons.prems(1-4) e] Cons.IH [OF _ _ _ _ r]
  show ?case by simp
qed

text \<open>So in no continuation of the run above does a receive return 1.\<close>

lemma concurrent_senders_lose_value:
  assumes "sys_run example_overwritten es = Some s'"
  shows "Some 1 \<notin> set (delivered s')"
proof -
  have "capacity (chan example_overwritten) = 0" "1 \<in> set (deposited example_overwritten)"
    "Some 1 \<notin> set (delivered example_overwritten)"
    "\<not> (pending_ready (chan example_overwritten) \<and> \<not> pending_taken (chan example_overwritten) \<and>
       pending_value (chan example_overwritten) = Some 1)"
    by (simp_all add: example_overwritten_def example_unbuffered_def)
  then show ?thesis using assms by (rule replaced_value_run)
qed

end
